theory Spec2Isabelle
  imports Complex_Main "HOL-Library.Word"
begin

section \<open>Bitsets\<close>

text \<open>
  Modelled from the spec: the bitset library (\<^verbatim>\<open>sage/data_structures/binary_matrix.pxi\<close> and
  the bitset macros it includes) is not among the sources. The spec describes it as an
  abstract Bitset ADT "supporting membership test, add, union, cardinality, and ordered
  iteration". A bitset of capacity \<open>n\<close> is a list of \<open>n\<close> booleans, bit \<open>i\<close> being the
  \<open>i\<close>-th entry. \<open>bitset_set_first_n b m\<close> makes \<open>b\<close> hold exactly the indices below \<open>m\<close>
  (the source clears a bitset with \<open>bitset_set_first_n(bs, 0)\<close> in \<open>hull\<close>). Reading a
  bit beyond the capacity gives \<open>False\<close> and adding one there changes nothing; the source
  only uses indices below the capacity. \<open>bitset_init\<close> is the bitset the library makes for
  a positive capacity; it refuses the capacity \<open>0\<close>, see \<open>bitset_init_checked\<close>.
\<close>

type_synonym bitset = "bool list"

definition bitset_init :: "nat \<Rightarrow> bitset" where
  "bitset_init sz = replicate sz False"

definition bitset_set_first_n :: "bitset \<Rightarrow> nat \<Rightarrow> bitset" where
  "bitset_set_first_n bits m = map (\<lambda>i. i < m) [0..<length bits]"

definition bitset_in :: "bitset \<Rightarrow> nat \<Rightarrow> bool" where
  "bitset_in bits i = (i < length bits \<and> bits ! i)"

definition bitset_add :: "bitset \<Rightarrow> nat \<Rightarrow> bitset" where
  "bitset_add bits i = bits[i := True]"

definition bitset_union :: "bitset \<Rightarrow> bitset \<Rightarrow> bitset" where
  "bitset_union a b = map (\<lambda>i. a ! i \<or> bitset_in b i) [0..<length a]"

definition bitset_len :: "bitset \<Rightarrow> nat" where
  "bitset_len bits = length (filter (\<lambda>b. b) bits)"

definition bitset_list :: "bitset \<Rightarrow> nat list" where
  "bitset_list bits = filter (\<lambda>i. bits ! i) [0..<length bits]"

text \<open>The set of indices a bitset holds.\<close>

definition members :: "bitset \<Rightarrow> nat set" where
  "members bits = {i. bitset_in bits i}"

section \<open>The class and its constructor\<close>

datatype error = NotImplementedError | KeyError | IndexError | MIPSolverException | ValueError

text \<open>
  The argument of the constructor: an undirected \<open>Graph\<close> or a \<open>DiGraph\<close>, each with
  the list of its vertices in the order \<open>list(G)\<close> yields them.
\<close>

datatype 'v sage_graph = Graph "'v list" | DiGraph "'v list"

record 'v convexity_properties =
  cp_n :: nat
  list_integers_to_vertices :: "'v list"
  dict_vertices_to_integers :: "'v \<rightharpoonup> nat"
  cache_hull_pairs :: "bitset list"

text \<open>
  \<open>c_distances_all_pairs\<close> is an external distance oracle; its result, a flat array of
  \<open>n * n\<close> unsigned shorts, is a parameter \<open>c_distances\<close> of the constructor.
  \<open>d_i[k] + d_j[k] == d_ij\<close> is evaluated in C after promotion to \<open>int\<close>, so the sum
  does not wrap.
\<close>

definition fill_bitset :: "nat \<Rightarrow> 16 word list \<Rightarrow> nat \<Rightarrow> nat \<Rightarrow> bitset \<Rightarrow> bitset" where
  "fill_bitset n c_distances i j row =
     fold (\<lambda>k row.
        if unat (c_distances ! (n * i + k)) + unat (c_distances ! (n * j + k))
             = unat (c_distances ! (n * i + j))
        then bitset_add row k else row) [0..<n] row"

definition fill_inner :: "nat \<Rightarrow> 16 word list \<Rightarrow> nat \<Rightarrow> bitset list \<times> nat \<Rightarrow> bitset list \<times> nat" where
  "fill_inner n c_distances i =
     fold (\<lambda>j (rows, p). (rows[p := fill_bitset n c_distances i j (rows ! p)], p + 1))
       [i + 1..<n]"

definition fill_cache :: "nat \<Rightarrow> 16 word list \<Rightarrow> bitset list" where
  "fill_cache n c_distances =
     fst (fold (fill_inner n c_distances) [0..<n]
            (replicate (n * (n - 1) div 2) (bitset_set_first_n (bitset_init n) 0), 0))"

definition build_dict :: "'v list \<Rightarrow> ('v \<rightharpoonup> nat)" where
  "build_dict vs = fold (\<lambda>(i, v) m. m(v \<mapsto> i)) (enumerate 0 vs) Map.empty"

definition ConvexityProperties_init ::
    "'v sage_graph \<Rightarrow> 16 word list \<Rightarrow> error + 'v convexity_properties" where
  "ConvexityProperties_init G c_distances =
     (case G of
        DiGraph vs \<Rightarrow> Inl NotImplementedError
      | Graph vs \<Rightarrow>
          Inr \<lparr> cp_n = length vs,
                list_integers_to_vertices = vs,
                dict_vertices_to_integers = build_dict vs,
                cache_hull_pairs = fill_cache (length vs) c_distances \<rparr>)"

section \<open>Convex hull of a bitset\<close>

text \<open>
  One pass of the \<open>while True\<close> loop of \<open>_bitset_convex_hull\<close>. The state of the two
  \<open>for\<close> loops is the bitset \<open>hull\<close> and the position \<open>p\<close> of the pointer \<open>p_bitset\<close> in
  the rows of the cache. The word \<open>hull\<close> is syntax of the library (the convex hull of a
  set of vectors), so the variable \<open>hull\<close> of the source is \<open>hull_bs\<close> here and the
  method \<open>hull\<close> is \<open>hull_vertices\<close>.
\<close>

definition hull_inner :: "'v convexity_properties \<Rightarrow> nat \<Rightarrow> bitset \<times> nat \<Rightarrow> bitset \<times> nat" where
  "hull_inner cp j = (\<lambda>(hull_bs, p).
     (if bitset_in hull_bs j then bitset_union hull_bs (cache_hull_pairs cp ! p) else hull_bs, p + 1))"

definition hull_outer :: "'v convexity_properties \<Rightarrow> nat \<Rightarrow> bitset \<times> nat \<Rightarrow> bitset \<times> nat" where
  "hull_outer cp i = (\<lambda>(hull_bs, p).
     if \<not> bitset_in hull_bs i then (hull_bs, p + (cp_n cp - 1 - i))
     else fold (hull_inner cp) [i + 1..<cp_n cp] (hull_bs, p))"

definition hull_pass :: "'v convexity_properties \<Rightarrow> bitset \<Rightarrow> bitset" where
  "hull_pass cp hull_bs = fst (fold (hull_outer cp) [0..<cp_n cp - 1] (hull_bs, 0))"

subsection \<open>Bitsets as sets of indices\<close>

lemma length_bitset_add [simp]: "length (bitset_add bits i) = length bits"
  by (simp add: bitset_add_def)

lemma length_bitset_union [simp]: "length (bitset_union a b) = length a"
  by (simp add: bitset_union_def)

lemma length_bitset_set_first_n [simp]: "length (bitset_set_first_n bits m) = length bits"
  by (simp add: bitset_set_first_n_def)

lemma length_bitset_init [simp]: "length (bitset_init sz) = sz"
  by (simp add: bitset_init_def)

lemma members_iff: "i \<in> members bits \<longleftrightarrow> i < length bits \<and> bits ! i"
  by (simp add: members_def bitset_in_def)

lemma bitset_in_members: "bitset_in bits i \<longleftrightarrow> i \<in> members bits"
  by (simp add: members_def)

lemma members_bound: "members bits \<subseteq> {..<length bits}"
  by (auto simp: members_iff)

lemma finite_members [simp]: "finite (members bits)"
  by (rule finite_subset [OF members_bound]) simp

lemma members_bitset_add:
  "i < length bits \<Longrightarrow> members (bitset_add bits i) = insert i (members bits)"
  by (auto simp: members_iff bitset_add_def nth_list_update split: if_splits)

lemma members_bitset_add_subset: "members bits \<subseteq> members (bitset_add bits i)"
  by (cases "i < length bits") (auto simp: members_iff bitset_add_def nth_list_update)

lemma members_bitset_union:
  "members (bitset_union a b) = members a \<union> (members b \<inter> {..<length a})"
  by (auto simp: members_iff bitset_union_def bitset_in_def)

lemma members_bitset_set_first_n:
  "members (bitset_set_first_n bits m) = {i. i < m \<and> i < length bits}"
  by (auto simp: members_iff bitset_set_first_n_def)

lemma bitset_len_card: "bitset_len bits = card (members bits)"
  by (simp add: bitset_len_def length_filter_conv_card members_def bitset_in_def)

lemma bitset_len_le_length: "bitset_len bits \<le> length bits"
  by (simp add: bitset_len_def)

lemma bitset_eqI:
  assumes "length a = length b" and "members a = members b"
  shows "a = b"
proof (rule nth_equalityI)
  show "length a = length b" by fact
next
  fix i assume "i < length a"
  with assms have "i \<in> members a \<longleftrightarrow> i \<in> members b" "i < length b" by simp_all
  with \<open>i < length a\<close> show "a ! i = b ! i" by (simp add: members_iff)
qed

lemma set_bitset_list: "set (bitset_list bits) = members bits"
  by (auto simp: bitset_list_def members_iff)

text \<open>\<open>bitset_le a b\<close>: same capacity, and every index of \<open>a\<close> is in \<open>b\<close>.\<close>

definition bitset_le :: "bitset \<Rightarrow> bitset \<Rightarrow> bool" where
  "bitset_le a b \<longleftrightarrow> length a = length b \<and> members a \<subseteq> members b"

lemma bitset_le_refl [simp]: "bitset_le a a"
  by (simp add: bitset_le_def)

lemma bitset_le_trans: "bitset_le a b \<Longrightarrow> bitset_le b c \<Longrightarrow> bitset_le a c"
  by (auto simp: bitset_le_def)

lemma bitset_le_union: "bitset_le a (bitset_union a b)"
  by (simp add: bitset_le_def members_bitset_union)

lemma bitset_le_add: "bitset_le a (bitset_add a i)"
  by (simp add: bitset_le_def members_bitset_add_subset)

lemma bitset_le_len: "bitset_le a b \<Longrightarrow> bitset_len a \<le> bitset_len b"
  by (simp add: bitset_le_def bitset_len_card card_mono)

lemma bitset_le_len_eq:
  assumes "bitset_le a b" and "bitset_len a = bitset_len b"
  shows "a = b"
proof -
  from assms have "members a = members b"
    by (simp add: bitset_le_def bitset_len_card card_subset_eq)
  with assms(1) show ?thesis by (simp add: bitset_le_def bitset_eqI)
qed

lemma fold_bitset_le:
  assumes "\<And>x s. bitset_le (fst s) (fst (f x s))"
  shows "bitset_le (fst s) (fst (fold f xs s))"
proof (induction xs arbitrary: s)
  case Nil
  show ?case by simp
next
  case (Cons x xs)
  have "bitset_le (fst s) (fst (f x s))" by (rule assms)
  also have "bitset_le (fst (f x s)) (fst (fold f xs (f x s)))" by (rule Cons.IH)
  finally (bitset_le_trans) show ?case by simp
qed

subsection \<open>A pass only adds vertices\<close>

lemma hull_inner_le: "bitset_le (fst s) (fst (hull_inner cp j s))"
  by (cases s) (simp add: hull_inner_def bitset_le_union)

lemma hull_outer_le: "bitset_le (fst s) (fst (hull_outer cp i s))"
proof (cases s)
  case (Pair hull_bs p)
  show ?thesis
  proof (cases "bitset_in hull_bs i")
    case True
    have "bitset_le (fst (hull_bs, p)) (fst (fold (hull_inner cp) [i + 1..<cp_n cp] (hull_bs, p)))"
      by (rule fold_bitset_le) (rule hull_inner_le)
    with True Pair show ?thesis by (simp add: hull_outer_def)
  next
    case False
    with Pair show ?thesis by (simp add: hull_outer_def)
  qed
qed

lemma hull_pass_le: "bitset_le hull_bs (hull_pass cp hull_bs)"
proof -
  have "bitset_le (fst (hull_bs, 0::nat)) (fst (fold (hull_outer cp) [0..<cp_n cp - 1] (hull_bs, 0)))"
    by (rule fold_bitset_le) (rule hull_outer_le)
  then show ?thesis by (simp add: hull_pass_def)
qed

lemma length_hull_pass [simp]: "length (hull_pass cp hull_bs) = length hull_bs"
  using hull_pass_le [of hull_bs cp] by (simp add: bitset_le_def)

subsection \<open>The loop of \<open>_bitset_convex_hull\<close>\<close>

text \<open>
  The \<open>while True\<close> loop, with \<open>count\<close> the size before the pass. The second component
  of the result counts the passes executed; it is not a variable of the source.
\<close>

function bitset_convex_hull_loop ::
    "'v convexity_properties \<Rightarrow> bitset \<Rightarrow> nat \<Rightarrow> nat \<Rightarrow> bitset \<times> nat" where
  "bitset_convex_hull_loop cp hull_bs count passes =
     (let hull_bs' = hull_pass cp hull_bs; tmp_count = bitset_len hull_bs' in
      if tmp_count = count then (hull_bs', Suc passes)
      else bitset_convex_hull_loop cp hull_bs' tmp_count (Suc passes))"
  by pat_completeness auto
termination
proof (relation "measure (\<lambda>(cp, hull_bs, count, passes).
          2 * (length hull_bs - bitset_len hull_bs) + (if count = bitset_len hull_bs then 0 else 1))")
  show "wf (measure (\<lambda>(cp :: 'v convexity_properties, hull_bs, count :: nat, passes :: nat).
          2 * (length hull_bs - bitset_len hull_bs) + (if count = bitset_len hull_bs then 0 else 1)))"
    by simp
next
  fix cp :: "'v convexity_properties" and hull_bs count and passes :: nat and hull_bs' tmp_count
  assume h: "hull_bs' = hull_pass cp hull_bs" and t: "tmp_count = bitset_len hull_bs'"
    and ne: "tmp_count \<noteq> count"
  have le: "bitset_len hull_bs \<le> bitset_len hull_bs'"
    unfolding h by (rule bitset_le_len [OF hull_pass_le])
  have bound: "bitset_len hull_bs' \<le> length hull_bs"
    using bitset_len_le_length [of hull_bs'] by (simp add: h)
  show "((cp, hull_bs', tmp_count, Suc passes), (cp, hull_bs, count, passes))
        \<in> measure (\<lambda>(cp, hull_bs, count, passes).
          2 * (length hull_bs - bitset_len hull_bs) + (if count = bitset_len hull_bs then 0 else 1))"
    using le bound ne t h by (auto simp: h)
qed

declare bitset_convex_hull_loop.simps [simp del]

definition bitset_convex_hull :: "'v convexity_properties \<Rightarrow> bitset \<Rightarrow> bitset" where
  "bitset_convex_hull cp hull_bs = fst (bitset_convex_hull_loop cp hull_bs (bitset_len hull_bs) 0)"

section \<open>The public method \<open>hull\<close>, the greedy expansion and the hull number\<close>

text \<open>
  The loop \<open>for v in vertices: bitset_add(bs, self._dict_vertices_to_integers[v])\<close>;
  a vertex that is not a key of the dictionary raises \<open>KeyError\<close>.
\<close>

fun hull_add_vertices :: "'v convexity_properties \<Rightarrow> 'v list \<Rightarrow> bitset \<Rightarrow> error + bitset" where
  "hull_add_vertices cp [] bs = Inr bs"
| "hull_add_vertices cp (v # vertices) bs =
     (case dict_vertices_to_integers cp v of
        None \<Rightarrow> Inl KeyError
      | Some i \<Rightarrow> hull_add_vertices cp vertices (bitset_add bs i))"

text \<open>\<open>_integers_to_vertices\<close>: indexing the list of vertices out of range raises \<open>IndexError\<close>.\<close>

definition integers_to_vertices :: "'v convexity_properties \<Rightarrow> nat list \<Rightarrow> error + 'v list" where
  "integers_to_vertices cp integers =
     (if \<forall>i \<in> set integers. i < length (list_integers_to_vertices cp)
      then Inr (map (\<lambda>i. list_integers_to_vertices cp ! i) integers)
      else Inl IndexError)"

text \<open>
  The library's \<open>bitset_init\<close> raises \<open>ValueError\<close> when the capacity asked for is \<open>0\<close>.
  In this class only \<open>hull\<close> can ask for it, on the instance of the graph without
  vertices: the constructor makes no row when \<open>n \<le> 1\<close>, and \<open>_greedy_increase\<close> and the
  loop of \<open>hull_number\<close> are reached only when \<open>n \<ge> 3\<close>.
\<close>

definition bitset_init_checked :: "nat \<Rightarrow> error + bitset" where
  "bitset_init_checked sz = (if sz = 0 then Inl ValueError else Inr (bitset_init sz))"

text \<open>
  The method \<open>hull\<close>: \<open>bitset_init(bs, self._n)\<close>, which may raise, then
  \<open>bitset_set_first_n(bs, 0)\<close>, the loop over the vertices, the closure and the list.
\<close>

definition hull_vertices :: "'v convexity_properties \<Rightarrow> 'v list \<Rightarrow> error + 'v list" where
  "hull_vertices cp vertices =
     (case bitset_init_checked (cp_n cp) of
        Inl e \<Rightarrow> Inl e
      | Inr bs \<Rightarrow>
          (case hull_add_vertices cp vertices (bitset_set_first_n bs 0) of
             Inl e \<Rightarrow> Inl e
           | Inr bs \<Rightarrow> integers_to_vertices cp (bitset_list (bitset_convex_hull cp bs))))"

text \<open>
  \<open>_greedy_increase\<close>: the body of the loop \<open>for i in range(self._n)\<close>, with \<open>tmp\<close> the
  copy of \<open>bs\<close> to which \<open>i\<close> was added and whose closure is computed, and the loop.
\<close>

definition greedy_step :: "'v convexity_properties \<Rightarrow> nat \<Rightarrow> bitset \<Rightarrow> bitset" where
  "greedy_step cp i bs =
     (if \<not> bitset_in bs i
      then (let tmp = bitset_convex_hull cp (bitset_add bs i)
            in if bitset_len tmp < cp_n cp then bitset_add bs i else bs)
      else bs)"

definition greedy_increase :: "'v convexity_properties \<Rightarrow> bitset \<Rightarrow> bitset" where
  "greedy_increase cp bs = fold (greedy_step cp) [0..<cp_n cp] bs"

text \<open>
  Modelled from the spec: the optimization backend (\<open>get_solver\<close> and the class
  \<open>GenericBackend\<close>) is not among the sources. The spec gives its interface: binary
  variables with an objective coefficient, a sense, \<open>add_linear_constraint(terms,
  lower_bound, upper_bound)\<close> whose constraints accumulate over the calls of \<open>solve()\<close>,
  \<open>get_variable_value(index)\<close> a real in \<open>[0,1]\<close> and \<open>get_objective_value()\<close> a real.
  The state of the backend is the number of its variables and the constraints added so
  far; what \<open>solve()\<close> computes from them is a parameter \<open>solve\<close> of \<open>hull_number\<close>,
  \<open>None\<close> where solving raises \<open>MIPSolverException\<close>. The floating-point values of the
  backend are real numbers here. \<open>hull_number\<close> sets the sense to minimization and adds
  \<open>n\<close> binary variables with the coefficient \<open>1\<close> in the objective; all its constraints
  have a lower bound and no upper bound.
\<close>

type_synonym linear_constraint = "(nat \<times> int) list \<times> int"

record backend =
  ncols :: nat
  constraints :: "linear_constraint list"

record solution =
  variable_value :: "nat \<Rightarrow> real"
  objective_value :: real

type_synonym solver = "backend \<Rightarrow> solution option"

definition add_variables :: "nat \<Rightarrow> backend" where
  "add_variables n = \<lparr> ncols = n, constraints = [] \<rparr>"

definition add_linear_constraint :: "backend \<Rightarrow> (nat \<times> int) list \<Rightarrow> int \<Rightarrow> backend" where
  "add_linear_constraint p coefficients lower_bound =
     p\<lparr> constraints := constraints p @ [(coefficients, lower_bound)] \<rparr>"

text \<open>The C cast \<open><int>\<close> of a double rounds towards zero.\<close>

definition int_cast :: "real \<Rightarrow> int" where
  "int_cast x = (if 0 \<le> x then \<lfloor>x\<rfloor> else \<lceil>x\<rceil>)"

text \<open>The list \<open>constraint\<close> built from the vertices outside \<open>current_hull\<close>.\<close>

definition outside_constraint :: "'v convexity_properties \<Rightarrow> bitset \<Rightarrow> (nat \<times> int) list" where
  "outside_constraint cp current_hull =
     map (\<lambda>i. (i, 1)) (filter (\<lambda>i. \<not> bitset_in current_hull i) [0..<cp_n cp])"

text \<open>The bitset of the variables the solution sets, before its closure is computed.\<close>

definition solution_bitset :: "'v convexity_properties \<Rightarrow> solution \<Rightarrow> bitset \<Rightarrow> bitset" where
  "solution_bitset cp sol current_hull =
     fold (\<lambda>i bs. if variable_value sol i > 1 / 2 then bitset_add bs i else bs)
       [0..<cp_n cp] (bitset_set_first_n current_hull 0)"

text \<open>The \<open>while True\<close> loop of \<open>hull_number\<close>; \<open>p\<close> is the state of the backend.\<close>

partial_function (option) hull_number_loop ::
    "solver \<Rightarrow> 'v convexity_properties \<Rightarrow> backend \<Rightarrow> bitset \<Rightarrow> (error + solution) option" where
  "hull_number_loop solve cp p current_hull =
     (let current_hull = greedy_increase cp current_hull;
          p = add_linear_constraint p (outside_constraint cp current_hull) 1
      in case solve p of
           None \<Rightarrow> Some (Inl MIPSolverException)
         | Some sol \<Rightarrow>
             (let current_hull = bitset_convex_hull cp (solution_bitset cp sol current_hull)
              in if bitset_len current_hull = cp_n cp then Some (Inr sol)
                 else hull_number_loop solve cp p current_hull))"

datatype 'v hull_number_result = Number int | Generating_Set "'v list"

text \<open>
  The bitset \<open>current_hull\<close> as \<open>bitset_init(current_hull, self._n)\<close> and
  \<open>bitset_set_first_n(current_hull, 1)\<close> leave it before the loop.
\<close>

definition hull_number_first_hull :: "'v convexity_properties \<Rightarrow> bitset" where
  "hull_number_first_hull cp = bitset_set_first_n (bitset_init (cp_n cp)) 1"

text \<open>
  \<open>hull_number\<close>; the flag \<open>verbose\<close> only prints and is left out. The result is
  \<open>None\<close> where the loop does not return.
\<close>

definition hull_number ::
    "solver \<Rightarrow> 'v convexity_properties \<Rightarrow> bool \<Rightarrow> (error + 'v hull_number_result) option" where
  "hull_number solve cp value_only =
     (if cp_n cp \<le> 2
      then (if value_only then Some (Inr (Number (int (cp_n cp))))
            else Some (Inr (Generating_Set (list_integers_to_vertices cp))))
      else
        (let p = add_linear_constraint (add_variables (cp_n cp))
                   (map (\<lambda>i. (i, 1)) [0..<cp_n cp]) 2
         in case hull_number_loop solve cp p (hull_number_first_hull cp) of
              None \<Rightarrow> None
            | Some (Inl e) \<Rightarrow> Some (Inl e)
            | Some (Inr sol) \<Rightarrow>
                if value_only then Some (Inr (Number (int_cast (objective_value sol))))
                else (case integers_to_vertices cp
                             (filter (\<lambda>i. variable_value sol i > 1 / 2) [0..<cp_n cp]) of
                        Inl e \<Rightarrow> Some (Inl e)
                      | Inr vertices \<Rightarrow> Some (Inr (Generating_Set vertices)))))"

section \<open>Notions used to state the properties\<close>

text \<open>
  The position of the row of the pair \<open>(i, j)\<close>, \<open>i < j\<close>, in the cache: the pointer
  \<open>p_bitset\<close> advances by \<open>n - 1 - i\<close> rows over the pairs whose first vertex is \<open>i\<close>.
\<close>

fun row_start :: "nat \<Rightarrow> nat \<Rightarrow> nat" where
  "row_start n 0 = 0"
| "row_start n (Suc i) = row_start n i + (n - 1 - i)"

definition pair_row :: "nat \<Rightarrow> nat \<Rightarrow> nat \<Rightarrow> nat" where
  "pair_row n i j = row_start n i + (j - Suc i)"

definition cache_row :: "'v convexity_properties \<Rightarrow> nat \<Rightarrow> nat \<Rightarrow> bitset" where
  "cache_row cp i j = cache_hull_pairs cp ! pair_row (cp_n cp) i j"

text \<open>The pass of \<open>_bitset_convex_hull\<close> with the rows named by their pairs.\<close>

definition pass_pair :: "'v convexity_properties \<Rightarrow> nat \<Rightarrow> nat \<Rightarrow> bitset \<Rightarrow> bitset" where
  "pass_pair cp i j hull_bs =
     (if bitset_in hull_bs j then bitset_union hull_bs (cache_row cp i j) else hull_bs)"

definition pass_row :: "'v convexity_properties \<Rightarrow> nat \<Rightarrow> bitset \<Rightarrow> bitset" where
  "pass_row cp i hull_bs =
     (if bitset_in hull_bs i then fold (pass_pair cp i) [Suc i..<cp_n cp] hull_bs else hull_bs)"

text \<open>The cache has a row for every pair, each of capacity \<open>n\<close>.\<close>

definition cache_wf :: "'v convexity_properties \<Rightarrow> bool" where
  "cache_wf cp \<longleftrightarrow>
     length (cache_hull_pairs cp) = cp_n cp * (cp_n cp - 1) div 2 \<and>
     (\<forall>row \<in> set (cache_hull_pairs cp). length row = cp_n cp)"

text \<open>
  A set of vertices is convex with respect to the cache when it contains the row of
  every pair of its members.
\<close>

definition convex_wrt :: "'v convexity_properties \<Rightarrow> nat set \<Rightarrow> bool" where
  "convex_wrt cp T \<longleftrightarrow>
     (\<forall>i < cp_n cp. \<forall>j < cp_n cp. i < j \<and> i \<in> T \<and> j \<in> T \<longrightarrow> members (cache_row cp i j) \<subseteq> T)"

text \<open>The distance \<open>d(i, j)\<close> read from the flat array, as the non-negative integer C computes with.\<close>

definition distance :: "nat \<Rightarrow> 16 word list \<Rightarrow> nat \<Rightarrow> nat \<Rightarrow> nat" where
  "distance n c_distances i j = unat (c_distances ! (n * i + j))"

text \<open>
  What the constructor needs of the distances of an undirected graph on \<open>n\<close> vertices:
  \<open>n * n\<close> entries, zero on the diagonal, and symmetric.
\<close>

definition symmetric_distances :: "nat \<Rightarrow> 16 word list \<Rightarrow> bool" where
  "symmetric_distances n d \<longleftrightarrow>
     length d = n * n \<and> (\<forall>i < n. distance n d i i = 0)
     \<and> (\<forall>i < n. \<forall>j < n. distance n d i j = distance n d j i)"

text \<open>
  The pass once more, with a third component that records the positions \<open>p\<close> at which
  \<open>bitset_union(hull, hull, p_bitset[0])\<close> reads a row of the cache. The record is not a
  variable of the source; \<open>hull_pass_reads_fst\<close> shows that the bitset computed is the
  one of \<open>hull_pass\<close>.
\<close>

definition hull_inner_reads ::
    "'v convexity_properties \<Rightarrow> nat \<Rightarrow> bitset \<times> nat \<times> nat list \<Rightarrow> bitset \<times> nat \<times> nat list" where
  "hull_inner_reads cp j = (\<lambda>(h, p, reads).
     if bitset_in h j then (bitset_union h (cache_hull_pairs cp ! p), p + 1, reads @ [p])
     else (h, p + 1, reads))"

definition hull_outer_reads ::
    "'v convexity_properties \<Rightarrow> nat \<Rightarrow> bitset \<times> nat \<times> nat list \<Rightarrow> bitset \<times> nat \<times> nat list" where
  "hull_outer_reads cp i = (\<lambda>(h, p, reads).
     if \<not> bitset_in h i then (h, p + (cp_n cp - 1 - i), reads)
     else fold (hull_inner_reads cp) [i + 1..<cp_n cp] (h, p, reads))"

definition hull_pass_reads :: "'v convexity_properties \<Rightarrow> bitset \<Rightarrow> bitset \<times> nat \<times> nat list" where
  "hull_pass_reads cp h = fold (hull_outer_reads cp) [0..<cp_n cp - 1] (h, 0, [])"

definition drop_reads :: "bitset \<times> nat \<times> nat list \<Rightarrow> bitset \<times> nat" where
  "drop_reads s = (fst s, fst (snd s))"

text \<open>The bitset \<open>bs\<close> of \<open>_greedy_increase\<close> when the loop reaches the vertex \<open>v\<close>.\<close>

definition greedy_working :: "'v convexity_properties \<Rightarrow> bitset \<Rightarrow> nat \<Rightarrow> bitset" where
  "greedy_working cp bs v = fold (greedy_step cp) [0..<v] bs"

text \<open>
  \<open>feasible n cs x\<close>: the assignment \<open>x\<close> of the \<open>n\<close> binary variables satisfies every
  constraint of \<open>cs\<close>, each a list of terms with a lower bound.
\<close>

definition constraint_value :: "(nat \<Rightarrow> real) \<Rightarrow> (nat \<times> int) list \<Rightarrow> real" where
  "constraint_value x coefficients = sum_list (map (\<lambda>(i, a). real_of_int a * x i) coefficients)"

definition feasible :: "nat \<Rightarrow> linear_constraint list \<Rightarrow> (nat \<Rightarrow> real) \<Rightarrow> bool" where
  "feasible n cs x \<longleftrightarrow>
     (\<forall>i < n. x i = 0 \<or> x i = 1)
     \<and> (\<forall>c \<in> set cs. real_of_int (snd c) \<le> constraint_value x (fst c))"

text \<open>
  The contract of \<open>solve\<close>: on a program that the assignment of \<open>1\<close> to every variable
  satisfies, it returns a feasible assignment, and the objective value it reports is
  the sum of the variables (each has the coefficient \<open>1\<close> in the objective).
\<close>

definition backend_contract :: "solver \<Rightarrow> bool" where
  "backend_contract solve \<longleftrightarrow>
     (\<forall>p. feasible (ncols p) (constraints p) (\<lambda>i. 1) \<longrightarrow>
        (\<exists>sol. solve p = Some sol
             \<and> feasible (ncols p) (constraints p) (variable_value sol)
             \<and> objective_value sol = sum_list (map (variable_value sol) [0..<ncols p])))"

text \<open>The sets of variables above \<open>1/2\<close> in the feasible assignments.\<close>

definition support :: "nat \<Rightarrow> (nat \<Rightarrow> real) \<Rightarrow> nat set" where
  "support n x = {i. i < n \<and> x i > 1 / 2}"

definition supports :: "nat \<Rightarrow> linear_constraint list \<Rightarrow> nat set set" where
  "supports n cs = support n ` {x. feasible n cs x}"

text \<open>
  What holds of the solution the loop ends with: it is binary, its objective value is
  the sum of its variables, and the closure of the variables it sets has all the vertices.
\<close>

definition good_solution :: "'v convexity_properties \<Rightarrow> solution \<Rightarrow> bool" where
  "good_solution cp sol \<longleftrightarrow>
     (\<forall>i < cp_n cp. variable_value sol i = 0 \<or> variable_value sol i = 1)
     \<and> objective_value sol = sum_list (map (variable_value sol) [0..<cp_n cp])
     \<and> bitset_len (bitset_convex_hull cp (solution_bitset cp sol (bitset_init (cp_n cp))))
         = cp_n cp"

text \<open>
  What holds at the head of the loop: the program has the \<open>n\<close> variables and is satisfied
  by setting them all, and the closure of \<open>current_hull\<close> is a proper subset.
\<close>

definition loop_inv :: "'v convexity_properties \<Rightarrow> backend \<Rightarrow> bitset \<Rightarrow> bool" where
  "loop_inv cp p cur \<longleftrightarrow>
     ncols p = cp_n cp \<and> feasible (cp_n cp) (constraints p) (\<lambda>i. 1)
     \<and> length cur = cp_n cp \<and> bitset_len (bitset_convex_hull cp cur) < cp_n cp"

definition loop_progress :: "'v convexity_properties \<Rightarrow> backend \<Rightarrow> bitset \<Rightarrow> bool" where
  "loop_progress cp p cur \<longleftrightarrow>
     (\<exists>X \<in> supports (cp_n cp) (constraints p). X \<subseteq> members cur)"

section \<open>Example instances\<close>

text \<open>The path \<open>a - b - c - d\<close>, its distances, and the instance built from them.\<close>

definition path4_vertices :: "string list" where
  "path4_vertices = [''a'', ''b'', ''c'', ''d'']"

definition path4_distances :: "16 word list" where
  "path4_distances = [0, 1, 2, 3,  1, 0, 1, 2,  2, 1, 0, 1,  3, 2, 1, 0]"

definition path4_cache :: "bitset list" where
  "path4_cache =
     [[True, True, False, False], [True, True, True, False], [True, True, True, True],
      [False, True, True, False], [False, True, True, True],
      [False, False, True, True]]"

definition path4 :: "string convexity_properties" where
  "path4 = \<lparr> cp_n = 4, list_integers_to_vertices = path4_vertices,
             dict_vertices_to_integers = build_dict path4_vertices,
             cache_hull_pairs = path4_cache \<rparr>"

text \<open>An instance on the graph without vertices.\<close>

definition empty_graph :: "string convexity_properties" where
  "empty_graph = \<lparr> cp_n = 0, list_integers_to_vertices = [],
                   dict_vertices_to_integers = build_dict [], cache_hull_pairs = [] \<rparr>"

text \<open>An instance on a graph with two vertices and one edge.\<close>

definition edge2_vertices :: "string list" where
  "edge2_vertices = [''a'', ''b'']"

definition edge2_distances :: "16 word list" where
  "edge2_distances = [0, 1,  1, 0]"

definition edge2 :: "string convexity_properties" where
  "edge2 = \<lparr> cp_n = 2, list_integers_to_vertices = edge2_vertices,
             dict_vertices_to_integers = build_dict edge2_vertices,
             cache_hull_pairs = [[True, True]] \<rparr>"

text \<open>
  A backend for the example: it answers with the two ends of the path when they are
  feasible, and with all the vertices otherwise.
\<close>

definition path4_ends :: "nat \<Rightarrow> real" where
  "path4_ends i = (if i = 0 \<or> i = 3 then 1 else 0)"

definition path4_solve :: solver where
  "path4_solve p =
     (let x = (if feasible (ncols p) (constraints p) path4_ends then path4_ends else (\<lambda>i. 1))
      in Some \<lparr> variable_value = x,
                 objective_value = sum_list (map x [0..<ncols p]) \<rparr>)"

section \<open>Lemmas\<close>

subsection \<open>The pass in terms of the pairs\<close>

lemma hull_inner_fold:
  "fold (hull_inner cp) [a..<b] (hull_bs, p) =
     (fold (\<lambda>j h. if bitset_in h j then bitset_union h (cache_hull_pairs cp ! (p + (j - a))) else h)
        [a..<b] hull_bs, p + (b - a))"
proof (induction b)
  case 0
  show ?case by simp
next
  case (Suc b)
  show ?case
  proof (cases "a \<le> b")
    case True
    then show ?thesis using Suc by (simp add: hull_inner_def Suc_diff_le)
  next
    case False
    then show ?thesis by simp
  qed
qed

lemma hull_outer_pass_row:
  "hull_outer cp i (hull_bs, row_start (cp_n cp) i) = (pass_row cp i hull_bs, row_start (cp_n cp) (Suc i))"
proof (cases "bitset_in hull_bs i")
  case True
  have "(\<lambda>j h. if bitset_in h j
                    then bitset_union h (cache_hull_pairs cp ! (row_start (cp_n cp) i + (j - Suc i)))
                    else h) = pass_pair cp i"
    by (intro ext) (simp add: pass_pair_def cache_row_def pair_row_def)
  with True show ?thesis
    by (simp add: hull_outer_def pass_row_def hull_inner_fold)
next
  case False
  then show ?thesis by (simp add: hull_outer_def pass_row_def)
qed

lemma hull_outer_fold:
  "fold (hull_outer cp) [0..<m] (hull_bs, 0) = (fold (pass_row cp) [0..<m] hull_bs, row_start (cp_n cp) m)"
  by (induction m) (simp_all add: hull_outer_pass_row)

lemma hull_pass_rows: "hull_pass cp hull_bs = fold (pass_row cp) [0..<cp_n cp - 1] hull_bs"
  by (simp add: hull_pass_def hull_outer_fold)

lemma row_start_closed: "i \<le> n \<Longrightarrow> 2 * row_start n i + i * (i + 1) = 2 * i * n"
proof (induction i)
  case 0
  show ?case by simp
next
  case (Suc i)
  then have "2 * row_start n i + i * (i + 1) = 2 * i * n" and "Suc i \<le> n" by simp_all
  then show ?case by (simp add: algebra_simps)
qed

lemma row_start_total: "row_start n n = n * (n - 1) div 2"
proof -
  have "2 * row_start n n + n * (n + 1) = 2 * n * n" by (rule row_start_closed) simp
  moreover have "n * (n - 1) + n * (n + 1) = 2 * n * n"
    by (cases n) (simp_all add: algebra_simps)
  ultimately have "2 * row_start n n = n * (n - 1)" by linarith
  then show ?thesis by simp
qed

lemma row_start_mono: "i \<le> i' \<Longrightarrow> row_start n i \<le> row_start n i'"
  by (induction i') (auto simp: le_Suc_eq)

lemma pair_row_less_next:
  assumes "i < j" "j < n"
  shows "pair_row n i j < row_start n (Suc i)"
  using assms by (simp add: pair_row_def)

lemma pair_row_less:
  assumes "i < j" "j < n"
  shows "pair_row n i j < n * (n - 1) div 2"
proof -
  have "pair_row n i j < row_start n (Suc i)" using assms by (rule pair_row_less_next)
  also have "\<dots> \<le> row_start n n" using assms by (intro row_start_mono) simp
  finally show ?thesis by (simp add: row_start_total)
qed

lemma fold_bitset_le':
  assumes "\<And>x s. bitset_le s (f x s)"
  shows "bitset_le s (fold f xs s)"
proof (induction xs arbitrary: s)
  case Nil
  show ?case by simp
next
  case (Cons x xs)
  have "bitset_le s (f x s)" by (rule assms)
  also have "bitset_le (f x s) (fold f xs (f x s))" by (rule Cons.IH)
  finally (bitset_le_trans) show ?case by simp
qed

lemma pass_pair_le: "bitset_le hull_bs (pass_pair cp i j hull_bs)"
  by (simp add: pass_pair_def bitset_le_union)

lemma pass_pairs_le: "bitset_le hull_bs (fold (pass_pair cp i) js hull_bs)"
  by (rule fold_bitset_le') (rule pass_pair_le)

lemma pass_row_le: "bitset_le hull_bs (pass_row cp i hull_bs)"
  by (simp add: pass_row_def pass_pairs_le)

lemma pass_rows_le: "bitset_le hull_bs (fold (pass_row cp) is hull_bs)"
  by (rule fold_bitset_le') (rule pass_row_le)

lemma upt_split: "a \<le> x \<Longrightarrow> x < b \<Longrightarrow> [a..<b] = [a..<x] @ x # [Suc x..<b]"
proof -
  assume "a \<le> x" "x < b"
  then have "[a..<x + (b - x)] = [a..<x] @ [x..<x + (b - x)]"
    by (intro upt_add_eq_append)
  with \<open>x < b\<close> show ?thesis by (simp add: upt_conv_Cons)
qed

text \<open>A pass stays inside every convex set that holds the bitset.\<close>

lemma pass_pair_sound:
  assumes "convex_wrt cp T" "i \<in> T" "i < j" "j < cp_n cp" "members hull_bs \<subseteq> T"
  shows "members (pass_pair cp i j hull_bs) \<subseteq> T"
proof (cases "bitset_in hull_bs j")
  case True
  with assms have "j \<in> T" by (auto simp: bitset_in_members)
  with assms have "members (cache_row cp i j) \<subseteq> T" by (simp add: convex_wrt_def)
  with True assms(5) show ?thesis by (auto simp: pass_pair_def members_bitset_union)
next
  case False
  with assms(5) show ?thesis by (simp add: pass_pair_def)
qed

lemma pass_row_sound:
  assumes "convex_wrt cp T" "members hull_bs \<subseteq> T"
  shows "members (pass_row cp i hull_bs) \<subseteq> T"
proof (cases "bitset_in hull_bs i")
  case True
  with assms have iT: "i \<in> T" by (auto simp: bitset_in_members)
  have "members (fold (pass_pair cp i) [Suc i..<cp_n cp] hull_bs) \<subseteq> T"
  proof (rule fold_invariant [where Q = "\<lambda>j. i < j \<and> j < cp_n cp" and P = "\<lambda>h. members h \<subseteq> T"])
    fix j assume "j \<in> set [Suc i..<cp_n cp]"
    then show "i < j \<and> j < cp_n cp" by simp
  next
    show "members hull_bs \<subseteq> T" by fact
  next
    fix j h assume "i < j \<and> j < cp_n cp" "members h \<subseteq> T"
    with assms(1) iT show "members (pass_pair cp i j h) \<subseteq> T" by (simp add: pass_pair_sound)
  qed
  with True show ?thesis by (simp add: pass_row_def)
next
  case False
  with assms(2) show ?thesis by (simp add: pass_row_def)
qed

lemma hull_pass_sound:
  assumes "convex_wrt cp T" "members hull_bs \<subseteq> T"
  shows "members (hull_pass cp hull_bs) \<subseteq> T"
  unfolding hull_pass_rows
proof (rule fold_invariant [where Q = "\<lambda>_. True" and P = "\<lambda>h. members h \<subseteq> T"])
  show "members hull_bs \<subseteq> T" by fact
next
  fix i h assume "members h \<subseteq> T"
  with assms(1) show "members (pass_row cp i h) \<subseteq> T" by (rule pass_row_sound)
qed simp

text \<open>A pass adds the cached row of every pair that was in the bitset before it.\<close>

lemma pass_pairs_covers:
  assumes "i < j" "j < cp_n cp" "bitset_in hull_bs j"
  shows "bitset_le (bitset_union (fold (pass_pair cp i) [Suc i..<j] hull_bs) (cache_row cp i j))
           (fold (pass_pair cp i) [Suc i..<cp_n cp] hull_bs)"
proof -
  let ?h = "fold (pass_pair cp i) [Suc i..<j] hull_bs"
  have "bitset_le hull_bs ?h" by (rule pass_pairs_le)
  with assms(3) have "bitset_in ?h j" by (auto simp: bitset_le_def bitset_in_members)
  then have step: "pass_pair cp i j ?h = bitset_union ?h (cache_row cp i j)"
    by (simp add: pass_pair_def)
  have "[Suc i..<cp_n cp] = [Suc i..<j] @ j # [Suc j..<cp_n cp]"
    using assms by (intro upt_split) simp_all
  then have "fold (pass_pair cp i) [Suc i..<cp_n cp] hull_bs
             = fold (pass_pair cp i) [Suc j..<cp_n cp] (bitset_union ?h (cache_row cp i j))"
    by (simp add: step)
  then show ?thesis by (simp add: pass_pairs_le)
qed

lemma pass_row_covers:
  assumes "i < j" "j < cp_n cp" "bitset_in hull_bs i" "bitset_in hull_bs j"
  shows "members (cache_row cp i j) \<inter> {..<length hull_bs} \<subseteq> members (pass_row cp i hull_bs)"
proof -
  let ?h = "fold (pass_pair cp i) [Suc i..<j] hull_bs"
  have len: "length ?h = length hull_bs"
    using pass_pairs_le [of hull_bs cp i "[Suc i..<j]"] by (simp add: bitset_le_def)
  have "members (bitset_union ?h (cache_row cp i j)) \<subseteq> members (pass_row cp i hull_bs)"
    using pass_pairs_covers [OF assms(1,2,4)] assms(3) by (simp add: pass_row_def bitset_le_def)
  then show ?thesis by (auto simp: members_bitset_union len)
qed

lemma hull_pass_covers:
  assumes "i < j" "j < cp_n cp" "bitset_in hull_bs i" "bitset_in hull_bs j"
  shows "members (cache_row cp i j) \<inter> {..<length hull_bs} \<subseteq> members (hull_pass cp hull_bs)"
proof -
  let ?h = "fold (pass_row cp) [0..<i] hull_bs"
  have le: "bitset_le hull_bs ?h" by (rule pass_rows_le)
  then have in_h: "bitset_in ?h i" "bitset_in ?h j" and len: "length ?h = length hull_bs"
    using assms(3,4) by (auto simp: bitset_le_def bitset_in_members)
  have "[0..<cp_n cp - 1] = [0..<i] @ i # [Suc i..<cp_n cp - 1]"
    using assms by (intro upt_split) simp_all
  then have "hull_pass cp hull_bs = fold (pass_row cp) [Suc i..<cp_n cp - 1] (pass_row cp i ?h)"
    by (simp add: hull_pass_rows)
  then have "members (pass_row cp i ?h) \<subseteq> members (hull_pass cp hull_bs)"
    using pass_rows_le [of "pass_row cp i ?h" cp "[Suc i..<cp_n cp - 1]"] by (simp add: bitset_le_def)
  with pass_row_covers [OF assms(1,2) in_h] show ?thesis by (auto simp: len)
qed

lemma cache_row_length:
  assumes "cache_wf cp" "i < j" "j < cp_n cp"
  shows "length (cache_row cp i j) = cp_n cp"
  using assms pair_row_less [of i j "cp_n cp"] by (simp add: cache_wf_def cache_row_def)

lemma fixed_point_convex:
  assumes "cache_wf cp" "length hull_bs = cp_n cp" "hull_pass cp hull_bs = hull_bs"
  shows "convex_wrt cp (members hull_bs)"
  unfolding convex_wrt_def
proof (intro allI impI)
  fix i j assume "i < cp_n cp" "j < cp_n cp" "i < j \<and> i \<in> members hull_bs \<and> j \<in> members hull_bs"
  then have ij: "i < j" "j < cp_n cp" "bitset_in hull_bs i" "bitset_in hull_bs j"
    by (simp_all add: bitset_in_members)
  have "members (cache_row cp i j) \<subseteq> {..<length hull_bs}"
    using members_bound [of "cache_row cp i j"] cache_row_length [OF assms(1) ij(1,2)] assms(2)
    by simp
  with hull_pass_covers [OF ij] show "members (cache_row cp i j) \<subseteq> members hull_bs"
    by (auto simp: assms(3))
qed

subsection \<open>What the loop returns\<close>

lemma hull_pass_len_le: "bitset_len hull_bs \<le> bitset_len (hull_pass cp hull_bs)"
  by (rule bitset_le_len [OF hull_pass_le])

lemma hull_pass_same_len:
  "bitset_len (hull_pass cp hull_bs) = bitset_len hull_bs \<Longrightarrow> hull_pass cp hull_bs = hull_bs"
  using bitset_le_len_eq [OF hull_pass_le, of hull_bs cp] by simp

text \<open>
  The loop runs \<open>k\<close> passes that each add a vertex and one last pass that adds none.
\<close>

lemma bitset_convex_hull_loop_passes:
  assumes "count = bitset_len hull_bs"
  shows "\<exists>k. bitset_convex_hull_loop cp hull_bs count passes
              = ((hull_pass cp ^^ k) hull_bs, passes + Suc k)
           \<and> hull_pass cp ((hull_pass cp ^^ k) hull_bs) = (hull_pass cp ^^ k) hull_bs
           \<and> (\<forall>m < k. bitset_len ((hull_pass cp ^^ m) hull_bs)
                         < bitset_len ((hull_pass cp ^^ Suc m) hull_bs))
           \<and> k + bitset_len hull_bs \<le> length hull_bs"
  using assms
proof (induction cp hull_bs count passes rule: bitset_convex_hull_loop.induct)
  case (1 cp hull_bs count passes)
  show ?case
  proof (cases "bitset_len (hull_pass cp hull_bs) = count")
    case True
    with "1.prems" have fp: "hull_pass cp hull_bs = hull_bs" by (simp add: hull_pass_same_len)
    have "bitset_convex_hull_loop cp hull_bs count passes = (hull_bs, Suc passes)"
      using True fp by (simp add: bitset_convex_hull_loop.simps [of cp hull_bs])
    with fp show ?thesis
      by (intro exI [of _ 0]) (simp add: bitset_len_le_length)
  next
    case False
    let ?h = "hull_pass cp hull_bs"
    from "1.IH" [OF refl refl False refl] obtain k where
      res: "bitset_convex_hull_loop cp ?h (bitset_len ?h) (Suc passes)
              = ((hull_pass cp ^^ k) ?h, Suc passes + Suc k)"
      and fp: "hull_pass cp ((hull_pass cp ^^ k) ?h) = (hull_pass cp ^^ k) ?h"
      and grow: "\<forall>m < k. bitset_len ((hull_pass cp ^^ m) ?h)
                             < bitset_len ((hull_pass cp ^^ Suc m) ?h)"
      and bound: "k + bitset_len ?h \<le> length ?h"
      by blast
    have shift: "(hull_pass cp ^^ m) ?h = (hull_pass cp ^^ Suc m) hull_bs" for m
      by (simp add: funpow_swap1)
    have lt: "bitset_len hull_bs < bitset_len ?h"
      using False "1.prems" hull_pass_len_le [of hull_bs cp] by simp
    have "bitset_convex_hull_loop cp hull_bs count passes
            = ((hull_pass cp ^^ Suc k) hull_bs, passes + Suc (Suc k))"
      using False res by (simp add: bitset_convex_hull_loop.simps [of cp hull_bs] shift)
    moreover have "hull_pass cp ((hull_pass cp ^^ Suc k) hull_bs) = (hull_pass cp ^^ Suc k) hull_bs"
      using fp by (simp only: shift)
    moreover have "\<forall>m < Suc k. bitset_len ((hull_pass cp ^^ m) hull_bs)
                                  < bitset_len ((hull_pass cp ^^ Suc m) hull_bs)"
    proof (intro allI impI)
      fix m assume "m < Suc k"
      show "bitset_len ((hull_pass cp ^^ m) hull_bs) < bitset_len ((hull_pass cp ^^ Suc m) hull_bs)"
      proof (cases m)
        case 0
        with lt show ?thesis by simp
      next
        case (Suc m')
        with \<open>m < Suc k\<close> grow have
          "bitset_len ((hull_pass cp ^^ m') ?h) < bitset_len ((hull_pass cp ^^ Suc m') ?h)"
          by simp
        then show ?thesis by (simp only: shift Suc)
      qed
    qed
    moreover have "Suc k + bitset_len hull_bs \<le> length hull_bs"
      using bound lt by simp
    ultimately show ?thesis by blast
  qed
qed

lemma funpow_hull_pass_le: "bitset_le hull_bs ((hull_pass cp ^^ k) hull_bs)"
proof (induction k)
  case 0
  show ?case by simp
next
  case (Suc k)
  then show ?case using hull_pass_le bitset_le_trans by (metis funpow.simps(2) o_apply)
qed

lemma funpow_hull_pass_sound:
  assumes "convex_wrt cp T" "members hull_bs \<subseteq> T"
  shows "members ((hull_pass cp ^^ k) hull_bs) \<subseteq> T"
  by (induction k) (simp_all add: assms hull_pass_sound)

lemma bitset_convex_hull_funpow:
  obtains k where "bitset_convex_hull cp hull_bs = (hull_pass cp ^^ k) hull_bs"
    and "hull_pass cp ((hull_pass cp ^^ k) hull_bs) = (hull_pass cp ^^ k) hull_bs"
  using bitset_convex_hull_loop_passes [OF refl, of cp hull_bs 0]
  by (auto simp: bitset_convex_hull_def)

lemma bitset_convex_hull_le: "bitset_le hull_bs (bitset_convex_hull cp hull_bs)"
  by (rule bitset_convex_hull_funpow [of cp hull_bs]) (simp add: funpow_hull_pass_le)

lemma length_bitset_convex_hull [simp]: "length (bitset_convex_hull cp hull_bs) = length hull_bs"
  using bitset_convex_hull_le [of hull_bs cp] by (simp add: bitset_le_def)

lemma bitset_convex_hull_fixed:
  "hull_pass cp (bitset_convex_hull cp hull_bs) = bitset_convex_hull cp hull_bs"
  by (rule bitset_convex_hull_funpow [of cp hull_bs]) simp

lemma bitset_convex_hull_sound:
  assumes "convex_wrt cp T" "members hull_bs \<subseteq> T"
  shows "members (bitset_convex_hull cp hull_bs) \<subseteq> T"
  by (rule bitset_convex_hull_funpow [of cp hull_bs]) (simp add: funpow_hull_pass_sound assms)

lemma bitset_convex_hull_convex:
  assumes "cache_wf cp" "length hull_bs = cp_n cp"
  shows "convex_wrt cp (members (bitset_convex_hull cp hull_bs))"
  using assms by (intro fixed_point_convex) (simp_all add: bitset_convex_hull_fixed)

text \<open>A convex bitset is left as it is, after one pass.\<close>

lemma hull_pass_convex:
  assumes "convex_wrt cp (members hull_bs)"
  shows "hull_pass cp hull_bs = hull_bs"
proof -
  have "members (hull_pass cp hull_bs) \<subseteq> members hull_bs"
    using assms by (rule hull_pass_sound) simp
  with hull_pass_le [of hull_bs cp] have "members (hull_pass cp hull_bs) = members hull_bs"
    by (auto simp: bitset_le_def)
  then show ?thesis by (intro bitset_eqI) simp_all
qed

lemma bitset_convex_hull_loop_convex:
  assumes "convex_wrt cp (members hull_bs)"
  shows "bitset_convex_hull_loop cp hull_bs (bitset_len hull_bs) passes = (hull_bs, Suc passes)"
  using hull_pass_convex [OF assms]
  by (simp add: bitset_convex_hull_loop.simps [of cp hull_bs])

lemma bitset_convex_hull_convex_id:
  "convex_wrt cp (members hull_bs) \<Longrightarrow> bitset_convex_hull cp hull_bs = hull_bs"
  by (simp add: bitset_convex_hull_def bitset_convex_hull_loop_convex)

lemma bitset_convex_hull_idem:
  assumes "cache_wf cp" "length hull_bs = cp_n cp"
  shows "bitset_convex_hull cp (bitset_convex_hull cp hull_bs) = bitset_convex_hull cp hull_bs"
  using assms by (intro bitset_convex_hull_convex_id bitset_convex_hull_convex)

subsection \<open>The cache the constructor builds\<close>

lemma fill_bitset_props:
  assumes "m \<le> length row"
  shows "length (fold (\<lambda>k row. if c k then bitset_add row k else row) [0..<m] row) = length row
       \<and> members (fold (\<lambda>k row. if c k then bitset_add row k else row) [0..<m] row)
           = members row \<union> {k. k < m \<and> c k}"
  using assms
proof (induction m)
  case 0
  show ?case by simp
next
  case (Suc m)
  then show ?case by (auto simp: members_bitset_add less_Suc_eq)
qed

lemma length_fill_bitset [simp]:
  "length row = n \<Longrightarrow> length (fill_bitset n d i j row) = n"
  unfolding fill_bitset_def using fill_bitset_props [of n row] by simp

lemma members_fill_bitset:
  "length row = n \<Longrightarrow>
   members (fill_bitset n d i j row)
     = members row \<union> {k. k < n \<and> distance n d i k + distance n d j k = distance n d i j}"
  unfolding fill_bitset_def distance_def using fill_bitset_props [of n row] by simp

text \<open>
  The inner loop over \<open>j\<close> fills the rows from \<open>p\<close> on, one per \<open>j\<close>, and leaves every
  other row as it was.
\<close>

lemma fill_inner_fold:
  assumes "p + (b - a) \<le> length rows"
  shows "\<exists>rows'. fold (\<lambda>j (rows, p). (rows[p := fill_bitset n d i j (rows ! p)], p + 1))
                     [a..<b] (rows, p) = (rows', p + (b - a))
          \<and> length rows' = length rows
          \<and> (\<forall>q. q < p \<or> p + (b - a) \<le> q \<longrightarrow> rows' ! q = rows ! q)
          \<and> (\<forall>j. a \<le> j \<and> j < b \<longrightarrow> rows' ! (p + (j - a)) = fill_bitset n d i j (rows ! (p + (j - a))))"
  using assms
proof (induction b)
  case 0
  show ?case by simp
next
  case (Suc b)
  show ?case
  proof (cases "a \<le> b")
    case False
    then show ?thesis by auto
  next
    case True
    with Suc.prems have "p + (b - a) \<le> length rows" by simp
    from Suc.IH [OF this] obtain rows' where
      res: "fold (\<lambda>j (rows, p). (rows[p := fill_bitset n d i j (rows ! p)], p + 1))
              [a..<b] (rows, p) = (rows', p + (b - a))"
      and len: "length rows' = length rows"
      and keep: "\<forall>q. q < p \<or> p + (b - a) \<le> q \<longrightarrow> rows' ! q = rows ! q"
      and filled: "\<forall>j. a \<le> j \<and> j < b \<longrightarrow>
                   rows' ! (p + (j - a)) = fill_bitset n d i j (rows ! (p + (j - a)))"
      by blast
    let ?q = "p + (b - a)"
    let ?rows = "rows'[?q := fill_bitset n d i b (rows' ! ?q)]"
    have q: "?q < length rows'" using Suc.prems True len by simp
    have "fold (\<lambda>j (rows, p). (rows[p := fill_bitset n d i j (rows ! p)], p + 1))
            [a..<Suc b] (rows, p) = (?rows, p + (Suc b - a))"
      using True res by (simp add: Suc_diff_le)
    moreover have "length ?rows = length rows" using len by simp
    moreover have "\<forall>q. q < p \<or> p + (Suc b - a) \<le> q \<longrightarrow> ?rows ! q = rows ! q"
      using keep True by (auto simp: Suc_diff_le)
    moreover have "\<forall>j. a \<le> j \<and> j < Suc b \<longrightarrow>
                     ?rows ! (p + (j - a)) = fill_bitset n d i j (rows ! (p + (j - a)))"
    proof (intro allI impI)
      fix j assume j: "a \<le> j \<and> j < Suc b"
      show "?rows ! (p + (j - a)) = fill_bitset n d i j (rows ! (p + (j - a)))"
      proof (cases "j = b")
        case True
        with q keep show ?thesis by simp
      next
        case False
        with j have "j < b" "p + (j - a) \<noteq> ?q" by auto
        with j filled show ?thesis by simp
      qed
    qed
    ultimately show ?thesis by blast
  qed
qed

lemma fill_inner_lengths:
  assumes "\<forall>row \<in> set (fst s). length row = n"
  shows "\<forall>row \<in> set (fst (fill_inner n d i s)). length row = n"
  unfolding fill_inner_def
proof (rule fold_invariant [where Q = "\<lambda>_. True" and P = "\<lambda>s. \<forall>row \<in> set (fst s). length row = n"])
  show "\<forall>row \<in> set (fst s). length row = n" by fact
next
  fix j and s :: "bitset list \<times> nat"
  assume inv: "\<forall>row \<in> set (fst s). length row = n"
  obtain rows p where s: "s = (rows, p)" by (cases s)
  show "\<forall>row \<in> set (fst ((\<lambda>(rows, p). (rows[p := fill_bitset n d i j (rows ! p)], p + 1)) s)).
          length row = n"
  proof (cases "p < length rows")
    case True
    with inv s have "length (fill_bitset n d i j (rows ! p)) = n" by simp
    with inv s show ?thesis
      using set_update_subset_insert [of rows p "fill_bitset n d i j (rows ! p)"] by auto
  next
    case False
    with inv s show ?thesis by (simp add: list_update_beyond)
  qed
qed simp

lemma fill_outer_fold:
  assumes "m \<le> n" "length rows = n * (n - 1) div 2"
  shows "\<exists>rows'. fold (fill_inner n d) [0..<m] (rows, 0) = (rows', row_start n m)
          \<and> length rows' = length rows
          \<and> (\<forall>q. row_start n m \<le> q \<longrightarrow> rows' ! q = rows ! q)
          \<and> (\<forall>i j. i < m \<and> i < j \<and> j < n \<longrightarrow>
                 rows' ! pair_row n i j = fill_bitset n d i j (rows ! pair_row n i j))"
  using assms(1)
proof (induction m)
  case 0
  show ?case by simp
next
  case (Suc m)
  then have "m \<le> n" by simp
  from Suc.IH [OF this] obtain rows' where
    res: "fold (fill_inner n d) [0..<m] (rows, 0) = (rows', row_start n m)"
    and len: "length rows' = length rows"
    and keep: "\<forall>q. row_start n m \<le> q \<longrightarrow> rows' ! q = rows ! q"
    and filled: "\<forall>i j. i < m \<and> i < j \<and> j < n \<longrightarrow>
                   rows' ! pair_row n i j = fill_bitset n d i j (rows ! pair_row n i j)"
    by blast
  let ?p = "row_start n m"
  have "row_start n (Suc m) \<le> row_start n n" using Suc.prems by (rule row_start_mono)
  then have room: "?p + (n - Suc m) \<le> length rows'"
    by (simp add: len assms(2) row_start_total)
  from fill_inner_fold [OF room, of n d m] obtain rows'' where
    res': "fill_inner n d m (rows', ?p) = (rows'', ?p + (n - Suc m))"
    and len': "length rows'' = length rows'"
    and keep': "\<forall>q. q < ?p \<or> ?p + (n - Suc m) \<le> q \<longrightarrow> rows'' ! q = rows' ! q"
    and filled': "\<forall>j. Suc m \<le> j \<and> j < n \<longrightarrow>
        rows'' ! (?p + (j - Suc m)) = fill_bitset n d m j (rows' ! (?p + (j - Suc m)))"
    unfolding fill_inner_def by (simp only: Suc_eq_plus1 [symmetric]) blast
  have "fold (fill_inner n d) [0..<Suc m] (rows, 0) = (rows'', row_start n (Suc m))"
    using res res' by simp
  moreover have "length rows'' = length rows" using len len' by simp
  moreover have "\<forall>q. row_start n (Suc m) \<le> q \<longrightarrow> rows'' ! q = rows ! q"
    using keep keep' by simp
  moreover have "\<forall>i j. i < Suc m \<and> i < j \<and> j < n \<longrightarrow>
                   rows'' ! pair_row n i j = fill_bitset n d i j (rows ! pair_row n i j)"
  proof (intro allI impI)
    fix i j assume ij: "i < Suc m \<and> i < j \<and> j < n"
    show "rows'' ! pair_row n i j = fill_bitset n d i j (rows ! pair_row n i j)"
    proof (cases "i = m")
      case True
      with ij filled' have
        "rows'' ! pair_row n m j = fill_bitset n d m j (rows' ! pair_row n m j)"
        by (simp add: pair_row_def)
      moreover have "rows' ! pair_row n m j = rows ! pair_row n m j"
        using keep by (simp add: pair_row_def)
      ultimately show ?thesis using True by simp
    next
      case False
      with ij have "i < m" by simp
      have "pair_row n i j < row_start n (Suc i)" using ij by (intro pair_row_less_next) simp_all
      also have "\<dots> \<le> ?p" using \<open>i < m\<close> by (intro row_start_mono) simp
      finally have "rows'' ! pair_row n i j = rows' ! pair_row n i j" using keep' by simp
      with filled ij \<open>i < m\<close> show ?thesis by simp
    qed
  qed
  ultimately show ?case by blast
qed

lemma fill_cache_row:
  assumes "i < j" "j < n"
  shows "fill_cache n d ! pair_row n i j = fill_bitset n d i j (replicate n False)"
proof -
  let ?rows = "replicate (n * (n - 1) div 2) (bitset_set_first_n (bitset_init n) 0)"
  have empty: "bitset_set_first_n (bitset_init n) 0 = replicate n False"
    by (simp add: bitset_set_first_n_def bitset_init_def map_replicate_const)
  from fill_outer_fold [of n n ?rows d] obtain rows' where
    "fold (fill_inner n d) [0..<n] (?rows, 0) = (rows', row_start n n)"
    and "\<forall>i j. i < n \<and> i < j \<and> j < n \<longrightarrow>
           rows' ! pair_row n i j = fill_bitset n d i j (?rows ! pair_row n i j)"
    by auto
  with assms pair_row_less [OF assms] show ?thesis
    by (simp add: fill_cache_def empty)
qed

lemma length_fill_cache: "length (fill_cache n d) = n * (n - 1) div 2"
proof -
  let ?rows = "replicate (n * (n - 1) div 2) (bitset_set_first_n (bitset_init n) 0)"
  from fill_outer_fold [of n n ?rows d] show ?thesis
    by (auto simp: fill_cache_def)
qed

lemma fill_cache_lengths: "\<forall>row \<in> set (fill_cache n d). length row = n"
  unfolding fill_cache_def
proof (rule fold_invariant [where Q = "\<lambda>_. True" and P = "\<lambda>s. \<forall>row \<in> set (fst s). length row = n"])
  fix i and s :: "bitset list \<times> nat"
  assume "\<forall>row \<in> set (fst s). length row = n"
  then show "\<forall>row \<in> set (fst (fill_inner n d i s)). length row = n"
    by (rule fill_inner_lengths)
next
  have "length (bitset_set_first_n (bitset_init n) 0) = n" by simp
  then show "\<forall>row \<in> set (fst (replicate (n * (n - 1) div 2) (bitset_set_first_n (bitset_init n) 0),
                                  0::nat)). length row = n"
    by (simp only: fst_conv set_replicate_conv_if) simp
qed simp

lemma members_fill_cache_row:
  assumes "i < j" "j < n"
  shows "members (fill_cache n d ! pair_row n i j)
           = {k. k < n \<and> distance n d i k + distance n d j k = distance n d i j}"
proof -
  have "members (replicate n False) = {}" by (auto simp: members_iff)
  then show ?thesis by (simp add: fill_cache_row [OF assms] members_fill_bitset)
qed

lemma init_cache_wf:
  assumes "ConvexityProperties_init G d = Inr cp"
  shows "cache_wf cp"
  using assms
  by (cases G) (auto simp: ConvexityProperties_init_def cache_wf_def length_fill_cache fill_cache_lengths)

lemma init_Graph:
  assumes "ConvexityProperties_init G d = Inr cp"
  obtains vs where "G = Graph vs" "cp_n cp = length vs" "list_integers_to_vertices cp = vs"
    "dict_vertices_to_integers cp = build_dict vs" "cache_hull_pairs cp = fill_cache (length vs) d"
  using assms by (cases G) (auto simp: ConvexityProperties_init_def)

subsection \<open>An example: the path on four vertices\<close>

lemma path4_fill_cache: "fill_cache 4 path4_distances = path4_cache"
  by code_simp

lemma path4_init: "ConvexityProperties_init (Graph path4_vertices) path4_distances = Inr path4"
proof -
  have "length path4_vertices = 4" by (simp add: path4_vertices_def)
  then show ?thesis by (simp add: ConvexityProperties_init_def path4_def path4_fill_cache)
qed

lemma path4_symmetric: "symmetric_distances 4 path4_distances"
proof -
  have "symmetric_distances (Suc (Suc (Suc (Suc 0)))) path4_distances"
    unfolding symmetric_distances_def distance_def path4_distances_def All_less_Suc
    by simp
  then show ?thesis by (simp add: numeral_eq_Suc)
qed

subsection \<open>Counting the passes\<close>

lemma convex_wrt_small:
  assumes "card T \<le> 1" "finite T"
  shows "convex_wrt cp T"
  unfolding convex_wrt_def
proof (intro allI impI)
  fix i j assume "i < j \<and> i \<in> T \<and> j \<in> T"
  then have "{i, j} \<subseteq> T" "card {i, j} = 2" by auto
  with assms have "2 \<le> card T" by (metis card_mono)
  with assms show "members (cache_row cp i j) \<subseteq> T" by simp
qed

lemma hull_pass_small:
  assumes "bitset_len h \<le> 1"
  shows "hull_pass cp h = h"
  using assms by (intro hull_pass_convex convex_wrt_small) (simp_all add: bitset_len_card)

lemma funpow_hull_pass_len_mono:
  "bitset_len ((hull_pass cp ^^ m) h) \<le> bitset_len ((hull_pass cp ^^ Suc m) h)"
  by (simp add: hull_pass_len_le)

lemma length_funpow_hull_pass [simp]: "length ((hull_pass cp ^^ m) h) = length h"
  by (induction m) simp_all

lemma empty_graph_init: "ConvexityProperties_init (Graph []) [] = Inr empty_graph"
  by (simp add: ConvexityProperties_init_def empty_graph_def fill_cache_def)

subsection \<open>The dictionary from vertices to integers\<close>

lemma build_dict_snoc: "build_dict (vs @ [v]) = (build_dict vs)(v \<mapsto> length vs)"
  by (simp add: build_dict_def enumerate_append_eq)

lemma build_dict_Some:
  "build_dict vs v = Some i \<Longrightarrow> i < length vs \<and> vs ! i = v"
proof (induction vs arbitrary: i rule: rev_induct)
  case Nil
  then show ?case by (simp add: build_dict_def)
next
  case (snoc x xs)
  then show ?case
    by (auto simp: build_dict_snoc nth_append less_Suc_eq split: if_splits)
qed

lemma build_dict_nth:
  "distinct vs \<Longrightarrow> i < length vs \<Longrightarrow> build_dict vs (vs ! i) = Some i"
proof (induction vs rule: rev_induct)
  case Nil
  then show ?case by simp
next
  case (snoc x xs)
  then show ?case
    by (auto simp: build_dict_snoc nth_append less_Suc_eq)
qed

subsection \<open>The method \<open>hull\<close> in terms of the closure of a bitset\<close>

lemma hull_add_vertices_Inr:
  assumes "hull_add_vertices cp vertices bs = Inr bs'"
  shows "length bs' = length bs
       \<and> members bs' = members bs
           \<union> {i. i < length bs \<and> (\<exists>v \<in> set vertices. dict_vertices_to_integers cp v = Some i)}"
  using assms
proof (induction vertices arbitrary: bs)
  case Nil
  then show ?case by simp
next
  case (Cons v vertices)
  then obtain i where i: "dict_vertices_to_integers cp v = Some i"
    and rest: "hull_add_vertices cp vertices (bitset_add bs i) = Inr bs'"
    by (auto split: option.splits)
  from Cons.IH [OF rest] have len: "length bs' = length bs"
    and mem: "members bs' = members (bitset_add bs i)
           \<union> {j. j < length bs \<and> (\<exists>v \<in> set vertices. dict_vertices_to_integers cp v = Some j)}"
    by simp_all
  show ?case
  proof (cases "i < length bs")
    case True
    with mem i len show ?thesis by (auto simp: members_bitset_add)
  next
    case False
    then have "bitset_add bs i = bs" by (simp add: bitset_add_def list_update_beyond)
    with mem i len False show ?thesis by auto
  qed
qed

lemma hull_add_vertices_known:
  assumes "\<forall>v \<in> set vertices. dict_vertices_to_integers cp v \<noteq> None"
  shows "\<exists>bs'. hull_add_vertices cp vertices bs = Inr bs'"
  using assms by (induction vertices arbitrary: bs) auto

lemma hull_add_vertices_unknown:
  assumes "\<exists>v \<in> set vertices. dict_vertices_to_integers cp v = None"
  shows "hull_add_vertices cp vertices bs = Inl KeyError"
  using assms by (induction vertices arbitrary: bs) (auto split: option.splits)

lemma bitset_empty_members [simp]: "members (bitset_set_first_n (bitset_init n) 0) = {}"
  by (simp add: members_bitset_set_first_n)

lemma bitset_list_bound: "i \<in> set (bitset_list bits) \<Longrightarrow> i < length bits"
  by (simp add: bitset_list_def)

text \<open>Reading back the list that \<open>hull\<close> returns gives the bitset it came from.\<close>

lemma hull_add_vertices_back:
  assumes "distinct (list_integers_to_vertices cp)"
    and "dict_vertices_to_integers cp = build_dict (list_integers_to_vertices cp)"
    and "cp_n cp = length (list_integers_to_vertices cp)"
    and "length B = cp_n cp"
  shows "hull_add_vertices cp (map (\<lambda>i. list_integers_to_vertices cp ! i) (bitset_list B))
           (bitset_set_first_n (bitset_init (cp_n cp)) 0) = Inr B"
proof -
  let ?vs = "list_integers_to_vertices cp"
  let ?H = "map (\<lambda>i. ?vs ! i) (bitset_list B)"
  let ?e = "bitset_set_first_n (bitset_init (cp_n cp)) 0"
  have key: "dict_vertices_to_integers cp (?vs ! i) = Some i" if "i < cp_n cp" for i
    using that assms(1,2,3) by (simp add: build_dict_nth)
  have "\<forall>v \<in> set ?H. dict_vertices_to_integers cp v \<noteq> None"
    using key assms(4) by (auto dest: bitset_list_bound)
  then obtain bs' where res: "hull_add_vertices cp ?H ?e = Inr bs'"
    using hull_add_vertices_known by blast
  from hull_add_vertices_Inr [OF res] have len: "length bs' = cp_n cp"
    and mem: "members bs' = {i. i < cp_n cp \<and> (\<exists>v \<in> set ?H. dict_vertices_to_integers cp v = Some i)}"
    by simp_all
  have "members bs' = members B"
  proof (intro set_eqI iffI)
    fix i assume "i \<in> members bs'"
    with mem obtain j where j: "j \<in> members B" "dict_vertices_to_integers cp (?vs ! j) = Some i"
      by (auto simp: set_bitset_list)
    then have "j < cp_n cp" using assms(4) by (simp add: members_iff)
    with key j show "i \<in> members B" by simp
  next
    fix i assume i: "i \<in> members B"
    then have "i < cp_n cp" using assms(4) by (simp add: members_iff)
    with key i mem show "i \<in> members bs'" by (auto simp: set_bitset_list)
  qed
  with len assms(4) res show ?thesis by (simp add: bitset_eqI)
qed

lemma hull_vertices_pos:
  "0 < cp_n cp \<Longrightarrow>
   hull_vertices cp vertices =
     (case hull_add_vertices cp vertices (bitset_set_first_n (bitset_init (cp_n cp)) 0) of
        Inl e \<Rightarrow> Inl e
      | Inr bs \<Rightarrow> integers_to_vertices cp (bitset_list (bitset_convex_hull cp bs)))"
  by (simp add: hull_vertices_def bitset_init_checked_def)

lemma hull_vertices_zero: "cp_n cp = 0 \<Longrightarrow> hull_vertices cp vertices = Inl ValueError"
  by (simp add: hull_vertices_def bitset_init_checked_def)

text \<open>On the instance of the graph without vertices \<open>hull\<close> raises, whatever the list is.\<close>

lemma hull_vertices_empty_graph: "hull_vertices empty_graph vertices = Inl ValueError"
  by (rule hull_vertices_zero) (simp add: empty_graph_def)

lemma hull_vertices_again:
  assumes "ConvexityProperties_init (Graph vs) d = Inr cp" and "distinct vs"
    and "hull_vertices cp S = Inr H"
  shows "hull_vertices cp H = Inr H"
proof -
  have pos: "0 < cp_n cp"
  proof (rule ccontr)
    assume "\<not> 0 < cp_n cp"
    then have "hull_vertices cp S = Inl ValueError" by (intro hull_vertices_zero) simp
    with assms(3) show False by simp
  qed
  from assms(1) have cp: "cp_n cp = length vs" "list_integers_to_vertices cp = vs"
    "dict_vertices_to_integers cp = build_dict vs"
    by (auto simp: ConvexityProperties_init_def)
  have wf: "cache_wf cp" using assms(1) by (rule init_cache_wf)
  let ?e = "bitset_set_first_n (bitset_init (cp_n cp)) 0"
  from assms(3) obtain bs where bs: "hull_add_vertices cp S ?e = Inr bs"
    and Hv: "integers_to_vertices cp (bitset_list (bitset_convex_hull cp bs)) = Inr H"
    by (auto simp: hull_vertices_pos [OF pos] split: sum.splits)
  let ?B = "bitset_convex_hull cp bs"
  from hull_add_vertices_Inr [OF bs] have lenB: "length ?B = cp_n cp" by simp
  from Hv have H': "H = map (\<lambda>i. list_integers_to_vertices cp ! i) (bitset_list ?B)"
    by (auto simp: integers_to_vertices_def split: if_splits)
  have again: "hull_add_vertices cp H ?e = Inr ?B"
    unfolding H' using assms(2) cp lenB by (intro hull_add_vertices_back) simp_all
  have "bitset_convex_hull cp ?B = ?B"
    using wf hull_add_vertices_Inr [OF bs] by (intro bitset_convex_hull_idem) simp_all
  with again Hv show ?thesis by (simp add: hull_vertices_pos [OF pos])
qed

subsection \<open>The rows a pass reads\<close>

lemma hull_inner_reads_drop:
  "drop_reads (fold (hull_inner_reads cp) js s) = fold (hull_inner cp) js (drop_reads s)"
proof (induction js arbitrary: s)
  case Nil
  show ?case by simp
next
  case (Cons j js)
  have "drop_reads (hull_inner_reads cp j s) = hull_inner cp j (drop_reads s)"
    by (cases s) (simp add: hull_inner_reads_def hull_inner_def drop_reads_def)
  with Cons show ?case by simp
qed

lemma hull_outer_reads_drop:
  "drop_reads (fold (hull_outer_reads cp) is s) = fold (hull_outer cp) is (drop_reads s)"
proof (induction "is" arbitrary: s)
  case Nil
  show ?case by simp
next
  case (Cons i "is")
  have "drop_reads (hull_outer_reads cp i s) = hull_outer cp i (drop_reads s)"
  proof (cases s)
    case (fields h p reads)
    show ?thesis
    proof (cases "bitset_in h i")
      case True
      with fields hull_inner_reads_drop [of cp "[i + 1..<cp_n cp]" s] show ?thesis
        by (simp add: hull_outer_reads_def hull_outer_def drop_reads_def)
    next
      case False
      with fields show ?thesis
        by (simp add: hull_outer_reads_def hull_outer_def drop_reads_def)
    qed
  qed
  with Cons show ?case by simp
qed

lemma hull_pass_reads_fst: "fst (hull_pass_reads cp h) = hull_pass cp h"
proof -
  have "fst (drop_reads (hull_pass_reads cp h)) = fst (fold (hull_outer cp) [0..<cp_n cp - 1] (h, 0))"
    unfolding hull_pass_reads_def hull_outer_reads_drop by (simp add: drop_reads_def)
  then show ?thesis by (simp add: drop_reads_def hull_pass_def)
qed

lemma hull_outer_reads_empty:
  assumes "members h = {}"
  shows "\<exists>p'. fold (hull_outer_reads cp) is (h, p, []) = (h, p', [])"
proof (induction "is" arbitrary: p)
  case Nil
  show ?case by simp
next
  case (Cons i "is")
  from assms have "\<not> bitset_in h i" by (simp add: bitset_in_members)
  then have "hull_outer_reads cp i (h, p, []) = (h, p + (cp_n cp - 1 - i), [])"
    by (simp add: hull_outer_reads_def)
  with Cons [of "p + (cp_n cp - 1 - i)"] show ?case by simp
qed

subsection \<open>Greedy increase\<close>

lemma proper_iff_len:
  assumes "length bs = n"
  shows "members bs \<subset> {..<n} \<longleftrightarrow> bitset_len bs < n"
proof
  assume "members bs \<subset> {..<n}"
  then have "card (members bs) < card {..<n}" by (intro psubset_card_mono) simp_all
  then show "bitset_len bs < n" by (simp add: bitset_len_card)
next
  assume "bitset_len bs < n"
  then have "card (members bs) \<noteq> card {..<n}" by (simp add: bitset_len_card)
  then have "members bs \<noteq> {..<n}" by (rule contrapos_nn) (simp only:)
  moreover have "members bs \<subseteq> {..<n}" using members_bound [of bs] assms by simp
  ultimately show "members bs \<subset> {..<n}" by (rule psubsetI [rotated])
qed

lemma greedy_step_le: "bitset_le bs (greedy_step cp i bs)"
  by (simp add: greedy_step_def Let_def bitset_le_add)

lemma greedy_step_members:
  "members (greedy_step cp i bs) \<subseteq> insert i (members bs)"
proof (cases "i < length bs")
  case True
  then show ?thesis by (auto simp: greedy_step_def Let_def members_bitset_add)
next
  case False
  then have "bitset_add bs i = bs" by (simp add: bitset_add_def list_update_beyond)
  then show ?thesis by (auto simp: greedy_step_def Let_def)
qed

lemma greedy_step_proper:
  assumes "bitset_len (bitset_convex_hull cp bs) < cp_n cp"
  shows "bitset_len (bitset_convex_hull cp (greedy_step cp i bs)) < cp_n cp"
  using assms by (simp add: greedy_step_def Let_def)

lemma greedy_step_commit:
  assumes "i < length bs" "\<not> bitset_in bs i"
  shows "bitset_in (greedy_step cp i bs) i
           \<longleftrightarrow> bitset_len (bitset_convex_hull cp (bitset_add bs i)) < cp_n cp"
  using assms by (simp add: greedy_step_def Let_def bitset_in_members members_bitset_add)

lemma greedy_working_Suc:
  "greedy_working cp bs (Suc v) = greedy_step cp v (greedy_working cp bs v)"
  by (simp add: greedy_working_def)

lemma greedy_working_le: "bitset_le bs (greedy_working cp bs v)"
  unfolding greedy_working_def by (rule fold_bitset_le') (rule greedy_step_le)

lemma length_greedy_working [simp]: "length (greedy_working cp bs v) = length bs"
  using greedy_working_le [of bs cp v] by (simp add: bitset_le_def)

lemma greedy_working_proper:
  assumes "bitset_len (bitset_convex_hull cp bs) < cp_n cp"
  shows "bitset_len (bitset_convex_hull cp (greedy_working cp bs v)) < cp_n cp"
  by (induction v) (simp_all add: greedy_working_def assms greedy_step_proper)

lemma greedy_working_members:
  "members (greedy_working cp bs v) \<subseteq> members bs \<union> {..<v}"
proof (induction v)
  case 0
  show ?case by (simp add: greedy_working_def)
next
  case (Suc v)
  with greedy_step_members [of cp v "greedy_working cp bs v"] show ?case
    by (auto simp: greedy_working_Suc less_Suc_eq)
qed

text \<open>Once the loop has passed \<open>u\<close>, it does not change whether \<open>u\<close> is in the bitset.\<close>

lemma greedy_working_later:
  assumes "u < v" "v \<le> w"
  shows "bitset_in (greedy_working cp bs w) u \<longleftrightarrow> bitset_in (greedy_working cp bs v) u"
  using assms(2)
proof (induction w rule: dec_induct)
  case base
  show ?case by simp
next
  case (step w)
  have "bitset_le (greedy_working cp bs w) (greedy_working cp bs (Suc w))"
    by (simp add: greedy_working_Suc greedy_step_le)
  moreover have "members (greedy_working cp bs (Suc w)) \<subseteq> insert w (members (greedy_working cp bs w))"
    by (simp add: greedy_working_Suc greedy_step_members)
  moreover have "u \<noteq> w" using assms(1) step by simp
  ultimately have "bitset_in (greedy_working cp bs (Suc w)) u
                     \<longleftrightarrow> bitset_in (greedy_working cp bs w) u"
    by (auto simp: bitset_in_members bitset_le_def)
  with step show ?case by simp
qed

lemma greedy_working_before:
  "bitset_in (greedy_working cp bs v) v \<longleftrightarrow> bitset_in bs v"
  using greedy_working_members [of cp bs v] greedy_working_le [of bs cp v]
  by (auto simp: bitset_in_members bitset_le_def)

lemma greedy_increase_working: "greedy_increase cp bs = greedy_working cp bs (cp_n cp)"
  by (simp add: greedy_increase_def greedy_working_def)

subsection \<open>The first working set of \<open>hull_number\<close>\<close>

lemma hull_number_first_hull_members:
  "0 < cp_n cp \<Longrightarrow> members (hull_number_first_hull cp) = {0}"
  by (auto simp: hull_number_first_hull_def members_bitset_set_first_n)

lemma length_hull_number_first_hull [simp]:
  "length (hull_number_first_hull cp) = cp_n cp"
  by (simp add: hull_number_first_hull_def)

lemma edge2_fill_cache: "fill_cache 2 edge2_distances = [[True, True]]"
  by code_simp

lemma edge2_init: "ConvexityProperties_init (Graph edge2_vertices) edge2_distances = Inr edge2"
proof -
  have "length edge2_vertices = 2" by (simp add: edge2_vertices_def)
  then show ?thesis by (simp add: ConvexityProperties_init_def edge2_def edge2_fill_cache)
qed

subsection \<open>What is asked of the backend\<close>

lemma finite_supports [simp]: "finite (supports n cs)"
proof (rule finite_subset)
  show "supports n cs \<subseteq> Pow {..<n}" by (auto simp: supports_def support_def)
qed simp

lemma supports_append: "supports n (cs @ [c]) \<subseteq> supports n cs"
  by (auto simp: supports_def feasible_def)

lemma constraint_value_ones:
  "constraint_value x (map (\<lambda>i. (i, 1)) js) = sum_list (map x js)"
  by (induction js) (simp_all add: constraint_value_def)

lemma sum_list_binary:
  assumes "\<forall>i \<in> set js. x i = 0 \<or> x i = (1::real)"
  shows "sum_list (map x js) = real (length (filter (\<lambda>i. x i > 1 / 2) js))"
  using assms by (induction js) auto

lemma sum_list_below_half:
  assumes "\<forall>i \<in> set js. x i = 0 \<or> x i = (1::real)" "\<forall>i \<in> set js. \<not> x i > 1 / 2"
  shows "sum_list (map x js) = 0"
  using assms by (induction js) auto

subsection \<open>The bitset of a solution\<close>

lemma bitset_set_first_n_0: "bitset_set_first_n bs 0 = replicate (length bs) False"
  by (simp add: bitset_set_first_n_def map_replicate_const)

lemma solution_bitset_fold:
  assumes "m \<le> length bs"
  shows "length (fold (\<lambda>i bs. if c i then bitset_add bs i else bs) [0..<m] bs) = length bs
       \<and> members (fold (\<lambda>i bs. if c i then bitset_add bs i else bs) [0..<m] bs)
           = members bs \<union> {i. i < m \<and> c i}"
  using assms
proof (induction m)
  case 0
  show ?case by simp
next
  case (Suc m)
  then show ?case by (auto simp: members_bitset_add less_Suc_eq)
qed

lemma length_solution_bitset [simp]:
  "length current_hull = cp_n cp \<Longrightarrow> length (solution_bitset cp sol current_hull) = cp_n cp"
  unfolding solution_bitset_def
  using solution_bitset_fold [of "cp_n cp" "bitset_set_first_n current_hull 0"] by simp

lemma members_solution_bitset:
  assumes "length current_hull = cp_n cp"
  shows "members (solution_bitset cp sol current_hull) = support (cp_n cp) (variable_value sol)"
proof -
  have "members (bitset_set_first_n current_hull 0) = {}"
    by (simp add: members_bitset_set_first_n)
  then show ?thesis
    unfolding solution_bitset_def support_def
    using solution_bitset_fold [of "cp_n cp" "bitset_set_first_n current_hull 0"
            "\<lambda>i. variable_value sol i > 1 / 2"] assms
    by simp
qed

lemma solution_bitset_cong:
  "length a = length b \<Longrightarrow> solution_bitset cp sol a = solution_bitset cp sol b"
  by (simp add: solution_bitset_def bitset_set_first_n_0)

subsection \<open>The loop of \<open>hull_number\<close> returns\<close>

lemma outside_constraint_ones:
  assumes "i < cp_n cp" "\<not> bitset_in C i"
  shows "1 \<le> constraint_value (\<lambda>i. 1) (outside_constraint cp C)"
proof -
  let ?js = "filter (\<lambda>i. \<not> bitset_in C i) [0..<cp_n cp]"
  from assms have "i \<in> set ?js" by simp
  then have "1 \<le> real (length ?js)" by (cases ?js) simp_all
  moreover have "sum_list (map (\<lambda>i. 1::real) ?js) = real (length ?js)"
    by (simp add: sum_list_triv)
  ultimately show ?thesis
    by (simp only: outside_constraint_def constraint_value_ones)
qed

lemma outside_constraint_violated:
  assumes "\<forall>i < cp_n cp. x i = 0 \<or> x i = 1" "support (cp_n cp) x \<subseteq> members C"
  shows "constraint_value x (outside_constraint cp C) = 0"
proof -
  let ?js = "filter (\<lambda>i. \<not> bitset_in C i) [0..<cp_n cp]"
  have "\<forall>i \<in> set ?js. x i = 0 \<or> x i = 1" using assms(1) by simp
  moreover have "\<forall>i \<in> set ?js. \<not> x i > 1 / 2"
    using assms(2) by (auto simp: support_def bitset_in_members)
  ultimately have "sum_list (map x ?js) = 0" by (rule sum_list_below_half)
  then show ?thesis by (simp add: outside_constraint_def constraint_value_ones)
qed

lemma proper_misses_vertex:
  assumes "length C = n" "bitset_len (bitset_convex_hull cp C) < n"
  obtains i where "i < n" "\<not> bitset_in C i"
proof -
  have "members C \<subseteq> members (bitset_convex_hull cp C)"
    using bitset_convex_hull_le [of C cp] by (simp add: bitset_le_def)
  then have "card (members C) \<le> card (members (bitset_convex_hull cp C))"
    by (intro card_mono) simp_all
  with assms(2) have "card (members C) < card {..<n}" by (simp add: bitset_len_card)
  then have "\<not> {..<n} \<subseteq> members C" by (metis card_mono finite_members not_less)
  then show ?thesis using that by (auto simp: bitset_in_members)
qed

text \<open>One turn of the loop, up to the test that ends it.\<close>

lemma hull_number_step:
  assumes contract: "backend_contract solve"
    and lp: "ncols p = cp_n cp" "feasible (cp_n cp) (constraints p) (\<lambda>i. 1)"
    and cur: "length cur = cp_n cp" "bitset_len (bitset_convex_hull cp cur) < cp_n cp"
  obtains sol where
    "solve (add_linear_constraint p (outside_constraint cp (greedy_increase cp cur)) 1) = Some sol"
    and "feasible (cp_n cp)
           (constraints (add_linear_constraint p (outside_constraint cp (greedy_increase cp cur)) 1))
           (variable_value sol)"
    and "objective_value sol = sum_list (map (variable_value sol) [0..<cp_n cp])"
    and "feasible (cp_n cp)
           (constraints (add_linear_constraint p (outside_constraint cp (greedy_increase cp cur)) 1))
           (\<lambda>i. 1)"
    and "\<forall>X \<in> supports (cp_n cp)
           (constraints (add_linear_constraint p (outside_constraint cp (greedy_increase cp cur)) 1)).
           \<not> X \<subseteq> members cur"
proof -
  let ?n = "cp_n cp"
  let ?C = "greedy_increase cp cur"
  let ?p = "add_linear_constraint p (outside_constraint cp ?C) 1"
  have lenC: "length ?C = ?n" using cur(1) by (simp add: greedy_increase_working)
  have properC: "bitset_len (bitset_convex_hull cp ?C) < ?n"
    unfolding greedy_increase_working using cur(2) by (rule greedy_working_proper)
  have subC: "members cur \<subseteq> members ?C"
    using greedy_working_le [of cur cp ?n] by (simp add: greedy_increase_working bitset_le_def)
  have cs: "constraints ?p = constraints p @ [(outside_constraint cp ?C, 1)]"
    and ncols: "ncols ?p = ?n"
    using lp(1) by (simp_all add: add_linear_constraint_def)
  obtain i where "i < ?n" "\<not> bitset_in ?C i"
    using lenC properC by (rule proper_misses_vertex)
  then have "1 \<le> constraint_value (\<lambda>i. 1) (outside_constraint cp ?C)"
    by (rule outside_constraint_ones)
  with lp(2) have ones: "feasible ?n (constraints ?p) (\<lambda>i. 1)"
    by (simp add: cs feasible_def)
  with contract ncols obtain sol where sol: "solve ?p = Some sol"
    "feasible ?n (constraints ?p) (variable_value sol)"
    "objective_value sol = sum_list (map (variable_value sol) [0..<?n])"
    unfolding backend_contract_def by (metis (no_types, lifting))
  have "\<not> X \<subseteq> members cur" if "X \<in> supports ?n (constraints ?p)" for X
  proof
    assume "X \<subseteq> members cur"
    from that obtain x where x: "feasible ?n (constraints ?p) x" "X = support ?n x"
      by (auto simp: supports_def)
    with \<open>X \<subseteq> members cur\<close> subC have "support ?n x \<subseteq> members ?C" by simp
    moreover from x(1) have "\<forall>i < ?n. x i = 0 \<or> x i = 1" by (simp add: feasible_def)
    ultimately have "constraint_value x (outside_constraint cp ?C) = 0"
      by (intro outside_constraint_violated)
    moreover from x(1) have "1 \<le> constraint_value x (outside_constraint cp ?C)"
      by (simp add: cs feasible_def)
    ultimately show False by simp
  qed
  with sol ones show ?thesis by (intro that) simp_all
qed

lemma hull_number_turn:
  assumes contract: "backend_contract solve" and wf: "cache_wf cp"
    and inv: "loop_inv cp p cur"
  shows "(\<exists>sol. hull_number_loop solve cp p cur = Some (Inr sol) \<and> good_solution cp sol)
       \<or> (\<exists>p' cur'. hull_number_loop solve cp p cur = hull_number_loop solve cp p' cur'
             \<and> loop_inv cp p' cur' \<and> loop_progress cp p' cur'
             \<and> supports (cp_n cp) (constraints p') \<subseteq> supports (cp_n cp) (constraints p)
             \<and> (\<forall>X \<in> supports (cp_n cp) (constraints p'). \<not> X \<subseteq> members cur))"
proof -
  let ?n = "cp_n cp"
  let ?C = "greedy_increase cp cur"
  let ?p = "add_linear_constraint p (outside_constraint cp ?C) 1"
  from inv have lp: "ncols p = ?n" "feasible ?n (constraints p) (\<lambda>i. 1)"
    and cur: "length cur = ?n" "bitset_len (bitset_convex_hull cp cur) < ?n"
    by (simp_all add: loop_inv_def)
  from hull_number_step [OF contract lp cur] obtain sol where
    sol: "solve ?p = Some sol"
    and feas: "feasible ?n (constraints ?p) (variable_value sol)"
    and obj: "objective_value sol = sum_list (map (variable_value sol) [0..<?n])"
    and ones: "feasible ?n (constraints ?p) (\<lambda>i. 1)"
    and cut: "\<forall>X \<in> supports ?n (constraints ?p). \<not> X \<subseteq> members cur"
    by blast
  let ?B = "solution_bitset cp sol ?C"
  let ?cur = "bitset_convex_hull cp ?B"
  have lenC: "length ?C = ?n" using cur(1) by (simp add: greedy_increase_working)
  have lenB: "length ?B = ?n" using lenC by simp
  have unfold: "hull_number_loop solve cp p cur
          = (if bitset_len ?cur = ?n then Some (Inr sol) else hull_number_loop solve cp ?p ?cur)"
    by (subst hull_number_loop.simps) (simp add: sol Let_def)
  show ?thesis
  proof (cases "bitset_len ?cur = ?n")
    case True
    have "solution_bitset cp sol (bitset_init ?n) = ?B"
      using lenC by (intro solution_bitset_cong) simp
    with True feas obj have "good_solution cp sol"
      by (simp add: good_solution_def feasible_def)
    with True unfold show ?thesis by simp
  next
    case False
    have "bitset_convex_hull cp ?cur = ?cur"
      using wf lenB by (rule bitset_convex_hull_idem)
    moreover have "bitset_len ?cur \<le> ?n"
      using bitset_len_le_length [of ?cur] lenB by simp
    ultimately have "bitset_len (bitset_convex_hull cp ?cur) < ?n" using False by simp
    moreover have "ncols ?p = ?n" using lp(1) by (simp add: add_linear_constraint_def)
    ultimately have inv': "loop_inv cp ?p ?cur" using ones lenB by (simp add: loop_inv_def)
    have "support ?n (variable_value sol) \<in> supports ?n (constraints ?p)"
      using feas by (simp add: supports_def)
    moreover have "support ?n (variable_value sol) \<subseteq> members ?cur"
      using bitset_convex_hull_le [of ?B cp] lenC
      by (simp add: bitset_le_def members_solution_bitset)
    ultimately have prog: "loop_progress cp ?p ?cur" by (auto simp: loop_progress_def)
    have "supports ?n (constraints ?p) \<subseteq> supports ?n (constraints p)"
      by (simp add: add_linear_constraint_def supports_append)
    with False unfold inv' prog cut show ?thesis by auto
  qed
qed

lemma hull_number_loop_progress_returns:
  assumes contract: "backend_contract solve" and wf: "cache_wf cp"
  shows "loop_inv cp p cur \<Longrightarrow> loop_progress cp p cur \<Longrightarrow>
         \<exists>sol. hull_number_loop solve cp p cur = Some (Inr sol) \<and> good_solution cp sol"
proof (induction "card (supports (cp_n cp) (constraints p))" arbitrary: p cur rule: less_induct)
  case less
  from hull_number_turn [OF contract wf less.prems(1)] show ?case
  proof
    assume "\<exists>sol. hull_number_loop solve cp p cur = Some (Inr sol) \<and> good_solution cp sol"
    then show ?thesis .
  next
    assume "\<exists>p' cur'. hull_number_loop solve cp p cur = hull_number_loop solve cp p' cur'
             \<and> loop_inv cp p' cur' \<and> loop_progress cp p' cur'
             \<and> supports (cp_n cp) (constraints p') \<subseteq> supports (cp_n cp) (constraints p)
             \<and> (\<forall>X \<in> supports (cp_n cp) (constraints p'). \<not> X \<subseteq> members cur)"
    then obtain p' cur' where
      eq: "hull_number_loop solve cp p cur = hull_number_loop solve cp p' cur'"
      and inv': "loop_inv cp p' cur'" and prog': "loop_progress cp p' cur'"
      and sub: "supports (cp_n cp) (constraints p') \<subseteq> supports (cp_n cp) (constraints p)"
      and cut: "\<forall>X \<in> supports (cp_n cp) (constraints p'). \<not> X \<subseteq> members cur"
      by blast
    from less.prems(2) obtain X where
      X: "X \<in> supports (cp_n cp) (constraints p)" "X \<subseteq> members cur"
      by (auto simp: loop_progress_def)
    with cut have "X \<notin> supports (cp_n cp) (constraints p')" by blast
    with X(1) sub have "supports (cp_n cp) (constraints p') \<subset> supports (cp_n cp) (constraints p)"
      by blast
    then have "card (supports (cp_n cp) (constraints p')) < card (supports (cp_n cp) (constraints p))"
      by (intro psubset_card_mono) simp_all
    from less.hyps [OF this inv' prog'] eq show ?thesis by simp
  qed
qed

lemma hull_number_loop_returns:
  assumes contract: "backend_contract solve" and wf: "cache_wf cp"
    and inv: "loop_inv cp p cur"
  shows "\<exists>sol. hull_number_loop solve cp p cur = Some (Inr sol) \<and> good_solution cp sol"
  using hull_number_turn [OF contract wf inv]
    hull_number_loop_progress_returns [OF contract wf]
  by (metis (no_types, lifting))

subsection \<open>The result of \<open>hull_number\<close>\<close>

lemma hull_number_first_inv:
  assumes "2 \<le> cp_n cp"
  shows "loop_inv cp
           (add_linear_constraint (add_variables (cp_n cp)) (map (\<lambda>i. (i, 1)) [0..<cp_n cp]) 2)
           (hull_number_first_hull cp)"
proof -
  let ?n = "cp_n cp"
  let ?f = "hull_number_first_hull cp"
  have mem: "members ?f = {0}" using assms by (intro hull_number_first_hull_members) simp
  then have "convex_wrt cp (members ?f)" by (intro convex_wrt_small) simp_all
  then have "bitset_convex_hull cp ?f = ?f" by (rule bitset_convex_hull_convex_id)
  moreover have "bitset_len ?f = 1" by (simp add: bitset_len_card mem)
  ultimately have proper: "bitset_len (bitset_convex_hull cp ?f) < ?n" using assms by simp
  have "sum_list (map (\<lambda>i. 1::real) [0..<?n]) = real ?n" by (simp add: sum_list_triv)
  then have "2 \<le> constraint_value (\<lambda>i. 1) (map (\<lambda>i. (i, 1)) [0..<?n])"
    using assms by (simp only: constraint_value_ones)
  then have "feasible ?n
      (constraints (add_linear_constraint (add_variables ?n) (map (\<lambda>i. (i, 1)) [0..<?n]) 2))
      (\<lambda>i. 1)"
    by (simp add: feasible_def add_linear_constraint_def add_variables_def)
  with proper show ?thesis
    by (simp add: loop_inv_def add_linear_constraint_def add_variables_def)
qed

lemma full_bitset_list:
  assumes "bitset_len bits = length bits"
  shows "bitset_list bits = [0..<length bits]"
proof -
  have "card (members bits) = card {..<length bits}" using assms by (simp add: bitset_len_card)
  then have eq: "members bits = {..<length bits}"
    by (rule card_subset_eq [OF finite_lessThan members_bound])
  have "bits ! i" if "i < length bits" for i
  proof -
    from that have "i \<in> {..<length bits}" by simp
    then have "i \<in> members bits" by (simp only: eq)
    then show ?thesis by (simp add: members_iff)
  qed
  then have "\<forall>i \<in> set [0..<length bits]. bits ! i" by simp
  then show ?thesis unfolding bitset_list_def by (simp only: filter_True)
qed

text \<open>\<open>hull\<close> on the vertices of a list of indices, in terms of a bitset with these indices.\<close>

lemma hull_add_vertices_indices:
  assumes "distinct (list_integers_to_vertices cp)"
    and "dict_vertices_to_integers cp = build_dict (list_integers_to_vertices cp)"
    and "cp_n cp = length (list_integers_to_vertices cp)"
    and "\<forall>i \<in> set ixs. i < cp_n cp"
    and "length B = cp_n cp" and "members B = set ixs"
  shows "hull_add_vertices cp (map (\<lambda>i. list_integers_to_vertices cp ! i) ixs)
           (bitset_set_first_n (bitset_init (cp_n cp)) 0) = Inr B"
proof -
  let ?vs = "list_integers_to_vertices cp"
  let ?H = "map (\<lambda>i. ?vs ! i) ixs"
  let ?e = "bitset_set_first_n (bitset_init (cp_n cp)) 0"
  have key: "dict_vertices_to_integers cp (?vs ! i) = Some i" if "i < cp_n cp" for i
    using that assms(1,2,3) by (simp add: build_dict_nth)
  have "\<forall>v \<in> set ?H. dict_vertices_to_integers cp v \<noteq> None"
    using key assms(4) by auto
  then obtain bs' where res: "hull_add_vertices cp ?H ?e = Inr bs'"
    using hull_add_vertices_known by blast
  from hull_add_vertices_Inr [OF res] have len: "length bs' = cp_n cp"
    and mem: "members bs' = {i. i < cp_n cp \<and> (\<exists>v \<in> set ?H. dict_vertices_to_integers cp v = Some i)}"
    by simp_all
  have "members bs' = set ixs"
  proof (intro set_eqI iffI)
    fix i assume "i \<in> members bs'"
    with mem obtain j where j: "j \<in> set ixs" "dict_vertices_to_integers cp (?vs ! j) = Some i"
      by auto
    with key assms(4) show "i \<in> set ixs" by auto
  next
    fix i assume i: "i \<in> set ixs"
    with key assms(4) mem show "i \<in> members bs'" by auto
  qed
  with len assms(5,6) res show ?thesis by (simp add: bitset_eqI)
qed

lemma hull_vertices_generates:
  assumes "ConvexityProperties_init (Graph vs) d = Inr cp" and "distinct vs"
    and "\<forall>i \<in> set ixs. i < cp_n cp"
    and "length B = cp_n cp" and "members B = set ixs"
    and "bitset_len (bitset_convex_hull cp B) = cp_n cp"
    and "0 < cp_n cp"
  shows "hull_vertices cp (map (\<lambda>i. vs ! i) ixs) = Inr vs"
proof -
  from assms(1) have cp: "cp_n cp = length vs" "list_integers_to_vertices cp = vs"
    "dict_vertices_to_integers cp = build_dict vs"
    by (auto simp: ConvexityProperties_init_def)
  have "hull_add_vertices cp (map (\<lambda>i. list_integers_to_vertices cp ! i) ixs)
           (bitset_set_first_n (bitset_init (cp_n cp)) 0) = Inr B"
    using assms(2-5) cp by (intro hull_add_vertices_indices) simp_all
  moreover have "bitset_list (bitset_convex_hull cp B) = [0..<length vs]"
    using full_bitset_list [of "bitset_convex_hull cp B"] assms(4,6) cp(1) by simp
  ultimately show ?thesis
    by (simp add: hull_vertices_pos [OF assms(7)] cp integers_to_vertices_def map_nth)
qed

lemma int_cast_nat [simp]: "int_cast (real k) = int k"
  by (simp add: int_cast_def)

lemma hull_all_vertices:
  assumes "ConvexityProperties_init (Graph vs) d = Inr cp" and "distinct vs" and "vs \<noteq> []"
  shows "hull_vertices cp vs = Inr vs"
proof -
  from assms(1) have cp: "cp_n cp = length vs" "list_integers_to_vertices cp = vs"
    by (auto simp: ConvexityProperties_init_def)
  have pos: "0 < cp_n cp" using assms(3) by (simp add: cp)
  let ?B = "replicate (cp_n cp) True"
  have mem: "members ?B = {..<cp_n cp}" by (auto simp: members_iff)
  have lenB: "bitset_len ?B = cp_n cp" by (simp add: bitset_len_def)
  have "bitset_le ?B (bitset_convex_hull cp ?B)" by (rule bitset_convex_hull_le)
  then have "bitset_len ?B \<le> bitset_len (bitset_convex_hull cp ?B)" by (rule bitset_le_len)
  moreover have "bitset_len (bitset_convex_hull cp ?B) \<le> cp_n cp"
    using bitset_len_le_length [of "bitset_convex_hull cp ?B"] by simp
  ultimately have full: "bitset_len (bitset_convex_hull cp ?B) = cp_n cp"
    using lenB by linarith
  have "set [0..<cp_n cp] = {..<cp_n cp}" by (simp add: atLeast0LessThan)
  with mem have mem': "members ?B = set [0..<cp_n cp]" by simp
  have "hull_vertices cp (map (\<lambda>i. vs ! i) [0..<cp_n cp]) = Inr vs"
  proof (rule hull_vertices_generates [OF assms(1,2) _ _ mem' full])
    show "\<forall>i \<in> set [0..<cp_n cp]. i < cp_n cp" by simp
    show "length ?B = cp_n cp" by simp
    show "0 < cp_n cp" by (rule pos)
  qed
  then show ?thesis by (simp add: cp map_nth)
qed

lemma hull_number_large:
  assumes "ConvexityProperties_init (Graph vs) d = Inr cp" and "distinct vs"
    and "backend_contract solve" and "\<not> cp_n cp \<le> 2"
  shows "\<exists>gs. hull_number solve cp False = Some (Inr (Generating_Set gs))
            \<and> hull_vertices cp gs = Inr vs
            \<and> hull_number solve cp True = Some (Inr (Number (int (length gs))))"
proof -
  let ?n = "cp_n cp"
  let ?p = "add_linear_constraint (add_variables ?n) (map (\<lambda>i. (i, 1)) [0..<?n]) 2"
  from assms(1) have cp: "?n = length vs" "list_integers_to_vertices cp = vs"
    by (auto simp: ConvexityProperties_init_def)
  have wf: "cache_wf cp" using assms(1) by (rule init_cache_wf)
  have "loop_inv cp ?p (hull_number_first_hull cp)"
    using assms(4) by (intro hull_number_first_inv) simp
  from hull_number_loop_returns [OF assms(3) wf this] obtain sol where
    loop: "hull_number_loop solve cp ?p (hull_number_first_hull cp) = Some (Inr sol)"
    and good: "good_solution cp sol"
    by blast
  let ?ixs = "filter (\<lambda>i. variable_value sol i > 1 / 2) [0..<?n]"
  let ?B = "solution_bitset cp sol (bitset_init ?n)"
  have ixs: "\<forall>i \<in> set ?ixs. i < ?n" by simp
  have lenl: "length (list_integers_to_vertices cp) = ?n" using cp by simp
  have "\<forall>i \<in> set ?ixs. i < length (list_integers_to_vertices cp)"
    by (simp add: lenl)
  then have conv: "integers_to_vertices cp ?ixs = Inr (map (\<lambda>i. vs ! i) ?ixs)"
    unfolding integers_to_vertices_def cp(2) by (rule if_P)
  have "members ?B = support ?n (variable_value sol)"
    by (rule members_solution_bitset) simp
  also have "\<dots> = set ?ixs" by (auto simp: support_def)
  finally have memB: "members ?B = set ?ixs" .
  have full: "bitset_len (bitset_convex_hull cp ?B) = ?n"
    using good by (simp add: good_solution_def)
  have gen: "hull_vertices cp (map (\<lambda>i. vs ! i) ?ixs) = Inr vs"
  proof (rule hull_vertices_generates [OF assms(1,2) ixs _ memB full])
    show "length ?B = ?n" by simp
    show "0 < ?n" using assms(4) by simp
  qed
  have "\<forall>i \<in> set [0..<?n]. variable_value sol i = 0 \<or> variable_value sol i = 1"
    using good by (simp add: good_solution_def)
  then have "sum_list (map (variable_value sol) [0..<?n]) = real (length ?ixs)"
    by (rule sum_list_binary)
  moreover have "objective_value sol = sum_list (map (variable_value sol) [0..<?n])"
    using good by (simp add: good_solution_def)
  ultimately have obj: "int_cast (objective_value sol) = int (length ?ixs)"
    by (simp only: int_cast_nat)
  have f: "hull_number solve cp False = Some (Inr (Generating_Set (map (\<lambda>i. vs ! i) ?ixs)))"
    using assms(4) conv by (simp add: hull_number_def Let_def loop)
  have t: "hull_number solve cp True = Some (Inr (Number (int (length ?ixs))))"
    using assms(4) by (simp add: hull_number_def Let_def loop obj)
  from f t gen show ?thesis by (intro exI [of _ "map (\<lambda>i. vs ! i) ?ixs"]) simp
qed

lemma path4_solve_contract: "backend_contract path4_solve"
  unfolding backend_contract_def
proof (intro allI impI)
  fix p :: backend
  assume ones: "feasible (ncols p) (constraints p) (\<lambda>i. 1)"
  show "\<exists>sol. path4_solve p = Some sol
             \<and> feasible (ncols p) (constraints p) (variable_value sol)
             \<and> objective_value sol = sum_list (map (variable_value sol) [0..<ncols p])"
  proof (cases "feasible (ncols p) (constraints p) path4_ends")
    case True
    then show ?thesis by (simp add: path4_solve_def Let_def)
  next
    case False
    with ones show ?thesis by (simp add: path4_solve_def Let_def)
  qed
qed

lemma path4_greedy_first:
  "greedy_increase path4 (hull_number_first_hull path4) = [True, True, True, False]"
  by code_simp

lemma path4_hull_ends:
  "bitset_convex_hull path4 [True, False, False, True] = [True, True, True, True]"
  by code_simp

lemma path4_outside_constraint:
  "outside_constraint path4 [True, True, True, False] = [(3, 1)]"
  by code_simp

lemma path4_upt: "[0..<4] = [0, 1, 2, 3]"
  by code_simp

lemma path4_ends_feasible:
  "feasible 4
     (constraints (add_linear_constraint
        (add_linear_constraint (add_variables 4) (map (\<lambda>i. (i, 1)) [0..<4]) 2) [(3, 1)] 1))
     path4_ends"
proof -
  have "\<forall>i < 4. path4_ends i = 0 \<or> path4_ends i = 1" by (simp add: path4_ends_def)
  then show ?thesis
    by (simp add: feasible_def constraint_value_def path4_ends_def path4_upt
          add_linear_constraint_def add_variables_def)
qed

lemma path4_solution_bitset:
  "solution_bitset path4 \<lparr> variable_value = path4_ends, objective_value = v \<rparr> bs
     = [True, False, False, True]" if "length bs = 4"
proof -
  have "bitset_set_first_n bs 0 = [False, False, False, False]"
    using that by (simp add: bitset_set_first_n_0 numeral_eq_Suc)
  then show ?thesis
    by (simp add: solution_bitset_def path4_def path4_upt path4_ends_def bitset_add_def)
qed

lemma path4_hull_number_loop:
  "hull_number_loop path4_solve path4
     (add_linear_constraint (add_variables 4) (map (\<lambda>i. (i, 1)) [0..<4]) 2)
     (hull_number_first_hull path4)
   = Some (Inr \<lparr> variable_value = path4_ends, objective_value = 2 \<rparr>)"
proof -
  let ?p = "add_linear_constraint
              (add_linear_constraint (add_variables 4) (map (\<lambda>i. (i, 1)) [0..<4]) 2)
              [(3, 1)] 1"
  have ncols: "ncols ?p = 4" by (simp add: add_linear_constraint_def add_variables_def)
  have "sum_list (map path4_ends [0..<4]) = 2" by (simp add: path4_ends_def path4_upt)
  then have solve: "path4_solve ?p = Some \<lparr> variable_value = path4_ends, objective_value = 2 \<rparr>"
    unfolding path4_solve_def ncols Let_def by (simp only: path4_ends_feasible if_True)
  have n: "cp_n path4 = 4" by (simp add: path4_def)
  have len: "bitset_len [True, True, True, True] = cp_n path4" by (simp add: bitset_len_def n)
  show ?thesis
    by (subst hull_number_loop.simps)
       (simp add: Let_def path4_greedy_first path4_outside_constraint solve
          path4_solution_bitset path4_hull_ends len)
qed

lemma path4_hull_number:
  "hull_number path4_solve path4 False = Some (Inr (Generating_Set [''a'', ''d'']))"
proof -
  have n: "cp_n path4 = 4" by (simp add: path4_def)
  have "hull_number path4_solve path4 False
          = (case integers_to_vertices path4 (filter (\<lambda>i. path4_ends i > 1 / 2) [0..<4]) of
               Inl e \<Rightarrow> Some (Inl e)
             | Inr vertices \<Rightarrow> Some (Inr (Generating_Set vertices)))"
    unfolding hull_number_def Let_def n path4_hull_number_loop by simp
  moreover have "filter (\<lambda>i. path4_ends i > 1 / 2) [0..<4] = [0, 3]"
    by (simp add: path4_ends_def path4_upt)
  moreover have "integers_to_vertices path4 [0, 3] = Inr [''a'', ''d'']"
    by (simp add: integers_to_vertices_def path4_def path4_vertices_def)
  ultimately show ?thesis by simp
qed

text \<open>
  Starting the first greedy expansion from the vertex \<open>0\<close> or from the empty bitset
  gives the same result: the expansion adds \<open>0\<close> first.
\<close>

lemma greedy_increase_first_hull:
  assumes "2 \<le> cp_n cp"
  shows "greedy_increase cp (hull_number_first_hull cp)
           = greedy_increase cp (bitset_set_first_n (bitset_init (cp_n cp)) 0)"
proof -
  let ?n = "cp_n cp"
  let ?e = "bitset_set_first_n (bitset_init ?n) 0"
  let ?f = "hull_number_first_hull cp"
  have mem_f: "members ?f = {0}" using assms by (intro hull_number_first_hull_members) simp
  have "members (bitset_add ?e 0) = {0}" using assms by (simp add: members_bitset_add)
  with mem_f have add: "bitset_add ?e 0 = ?f" by (intro bitset_eqI) simp_all
  have "convex_wrt cp (members ?f)" by (intro convex_wrt_small) (simp_all add: mem_f)
  then have "bitset_convex_hull cp ?f = ?f" by (rule bitset_convex_hull_convex_id)
  moreover have "bitset_len ?f = 1" by (simp add: bitset_len_card mem_f)
  moreover have "\<not> bitset_in ?e 0" by (simp add: bitset_in_members)
  ultimately have e: "greedy_step cp 0 ?e = ?f"
    using assms by (simp add: greedy_step_def Let_def add)
  have "bitset_in ?f 0" by (simp add: bitset_in_members mem_f)
  then have f: "greedy_step cp 0 ?f = ?f" by (simp add: greedy_step_def)
  have "[0..<?n] = 0 # [1..<?n]" using assms by (simp add: upt_conv_Cons)
  then show ?thesis by (simp add: greedy_increase_def e f)
qed

section \<open>Claims\<close>

text \<open>
  C1: in \<open>hull_number\<close> the bitset \<open>current_hull\<close> is, before the first greedy
  expansion, set up by \<open>bitset_set_first_n(current_hull, 1)\<close>: on the path with four
  vertices it holds the vertex \<open>0\<close> and is not empty.
\<close>

theorem hull_number_first_hull_path4:
  "hull_number_first_hull path4 = [True, False, False, False]
   \<and> bitset_list (hull_number_first_hull path4) = [0]
   \<and> bitset_len (hull_number_first_hull path4) = 1"
  by code_simp

text \<open>
  C2: after construction on a graph whose distances are symmetric with a zero diagonal,
  bit \<open>k\<close> of the row cached for the pair \<open>i < j\<close> is set exactly when
  \<open>d(i,k) + d(k,j) = d(i,j)\<close>, and the bits \<open>i\<close> and \<open>j\<close> are set.
\<close>

theorem cache_row_shortest_paths:
  assumes "ConvexityProperties_init (Graph vs) d = Inr cp"
    and "symmetric_distances (length vs) d"
    and "i < j" and "j < length vs" and "k < length vs"
  shows "(bitset_in (cache_row cp i j) k \<longleftrightarrow>
            distance (length vs) d i k + distance (length vs) d k j = distance (length vs) d i j)
       \<and> bitset_in (cache_row cp i j) i \<and> bitset_in (cache_row cp i j) j"
proof -
  let ?n = "length vs"
  from assms(1) have cp: "cp_n cp = ?n" "cache_hull_pairs cp = fill_cache ?n d"
    by (auto simp: ConvexityProperties_init_def)
  have row: "members (cache_row cp i j)
               = {k. k < ?n \<and> distance ?n d i k + distance ?n d j k = distance ?n d i j}"
    using assms(3,4) by (simp add: cache_row_def cp members_fill_cache_row)
  from assms have i: "i < ?n" by simp
  from assms(2) have sym: "distance ?n d a b = distance ?n d b a" if "a < ?n" "b < ?n" for a b
    using that by (simp add: symmetric_distances_def)
  from assms(2) have diag: "distance ?n d a a = 0" if "a < ?n" for a
    using that by (simp add: symmetric_distances_def)
  have "bitset_in (cache_row cp i j) k \<longleftrightarrow>
          distance ?n d i k + distance ?n d k j = distance ?n d i j"
    using assms(4,5) by (simp add: bitset_in_members row sym)
  moreover have "bitset_in (cache_row cp i j) i"
    using i assms(4) by (simp add: bitset_in_members row diag sym)
  moreover have "bitset_in (cache_row cp i j) j"
    using i assms(4) by (simp add: bitset_in_members row diag)
  ultimately show ?thesis by simp
qed

theorem cache_row_shortest_paths_witness:
  "ConvexityProperties_init (Graph path4_vertices) path4_distances = Inr path4
   \<and> symmetric_distances (length path4_vertices) path4_distances
   \<and> (0::nat) < 3 \<and> 3 < length path4_vertices \<and> 1 < length path4_vertices
   \<and> (bitset_in (cache_row path4 0 3) 1 \<longleftrightarrow>
        distance 4 path4_distances 0 1 + distance 4 path4_distances 1 3
          = distance 4 path4_distances 0 3)
   \<and> bitset_in (cache_row path4 0 3) 0 \<and> bitset_in (cache_row path4 0 3) 3"
proof -
  have len: "length path4_vertices = 4" by (simp add: path4_vertices_def)
  have sym: "symmetric_distances (length path4_vertices) path4_distances"
    by (simp add: len path4_symmetric)
  have "(3::nat) < length path4_vertices" "(1::nat) < length path4_vertices"
    by (simp_all add: len)
  from cache_row_shortest_paths [OF path4_init sym _ this, of 0] sym path4_init len
  show ?thesis by simp
qed

text \<open>
  C3: on the instance the constructor builds, for every bitset \<open>S\<close> of capacity \<open>n\<close> the
  closure computation returns a bitset that contains \<open>S\<close>, that is convex with respect
  to the cached rows, that lies inside every convex set containing \<open>S\<close>, and that is a
  fixed point of the pass lying inside every fixed point above \<open>S\<close>.
\<close>

theorem bitset_convex_hull_smallest_convex:
  assumes "ConvexityProperties_init G d = Inr cp" and "length S = cp_n cp"
  shows "members S \<subseteq> members (bitset_convex_hull cp S)
       \<and> length (bitset_convex_hull cp S) = cp_n cp
       \<and> convex_wrt cp (members (bitset_convex_hull cp S))
       \<and> (\<forall>T. members S \<subseteq> T \<and> convex_wrt cp T \<longrightarrow> members (bitset_convex_hull cp S) \<subseteq> T)
       \<and> hull_pass cp (bitset_convex_hull cp S) = bitset_convex_hull cp S
       \<and> (\<forall>F. length F = cp_n cp \<and> members S \<subseteq> members F \<and> hull_pass cp F = F
              \<longrightarrow> members (bitset_convex_hull cp S) \<subseteq> members F)"
proof -
  have wf: "cache_wf cp" using assms(1) by (rule init_cache_wf)
  have "members S \<subseteq> members (bitset_convex_hull cp S)"
    using bitset_convex_hull_le [of S cp] by (simp add: bitset_le_def)
  moreover have "length (bitset_convex_hull cp S) = cp_n cp" using assms(2) by simp
  moreover have "convex_wrt cp (members (bitset_convex_hull cp S))"
    using wf assms(2) by (rule bitset_convex_hull_convex)
  moreover have least: "members (bitset_convex_hull cp S) \<subseteq> T"
    if "members S \<subseteq> T" "convex_wrt cp T" for T
    using that by (simp add: bitset_convex_hull_sound)
  moreover have "hull_pass cp (bitset_convex_hull cp S) = bitset_convex_hull cp S"
    by (rule bitset_convex_hull_fixed)
  moreover have "members (bitset_convex_hull cp S) \<subseteq> members F"
    if "length F = cp_n cp" "members S \<subseteq> members F" "hull_pass cp F = F" for F
    using that least fixed_point_convex [OF wf] by simp
  ultimately show ?thesis by blast
qed

theorem bitset_convex_hull_smallest_convex_witness:
  "ConvexityProperties_init (Graph path4_vertices) path4_distances = Inr path4
   \<and> length [True, False, True, False] = cp_n path4
   \<and> bitset_convex_hull path4 [True, False, True, False] = [True, True, True, False]
   \<and> members [True, False, True, False] \<subseteq> members [True, True, True, False]
   \<and> convex_wrt path4 (members [True, True, True, False])
   \<and> hull_pass path4 [True, True, True, False] = [True, True, True, False]"
proof -
  have len: "length [True, False, True, False] = cp_n path4" by (simp add: path4_def)
  have val: "bitset_convex_hull path4 [True, False, True, False] = [True, True, True, False]"
    by code_simp
  from bitset_convex_hull_smallest_convex [OF path4_init len] path4_init len val
  show ?thesis by simp
qed

text \<open>
  C4: on an instance with at least one vertex, for every bitset \<open>S\<close> of capacity \<open>n\<close> the
  loop returns, after \<open>k\<close> passes that each add a vertex and one last pass that adds
  none; the size never decreases from one pass to the next and never exceeds \<open>n\<close>; and
  the number \<open>k + 1\<close> of passes executed is at most \<open>n\<close>. (The loop is not reached with
  \<open>n = 0\<close>: no bitset of capacity \<open>0\<close> exists.)
\<close>

theorem bitset_convex_hull_loop_passes_bound:
  assumes "length S = cp_n cp" and "1 \<le> cp_n cp"
  shows "\<exists>k. bitset_convex_hull_loop cp S (bitset_len S) 0 = ((hull_pass cp ^^ k) S, Suc k)
           \<and> hull_pass cp ((hull_pass cp ^^ k) S) = (hull_pass cp ^^ k) S
           \<and> (\<forall>m < k. bitset_len ((hull_pass cp ^^ m) S)
                         < bitset_len ((hull_pass cp ^^ Suc m) S))
           \<and> (\<forall>m. bitset_len ((hull_pass cp ^^ m) S) \<le> bitset_len ((hull_pass cp ^^ Suc m) S)
                  \<and> bitset_len ((hull_pass cp ^^ m) S) \<le> cp_n cp)
           \<and> Suc k \<le> cp_n cp"
proof -
  from bitset_convex_hull_loop_passes [OF refl, of cp S 0] obtain k where
    res: "bitset_convex_hull_loop cp S (bitset_len S) 0 = ((hull_pass cp ^^ k) S, Suc k)"
    and fp: "hull_pass cp ((hull_pass cp ^^ k) S) = (hull_pass cp ^^ k) S"
    and grow: "\<forall>m < k. bitset_len ((hull_pass cp ^^ m) S)
                          < bitset_len ((hull_pass cp ^^ Suc m) S)"
    and bound: "k + bitset_len S \<le> length S"
    by auto
  have mono: "\<forall>m. bitset_len ((hull_pass cp ^^ m) S) \<le> bitset_len ((hull_pass cp ^^ Suc m) S)
                  \<and> bitset_len ((hull_pass cp ^^ m) S) \<le> cp_n cp"
  proof
    fix m
    have "bitset_len ((hull_pass cp ^^ m) S) \<le> length ((hull_pass cp ^^ m) S)"
      by (rule bitset_len_le_length)
    then show "bitset_len ((hull_pass cp ^^ m) S) \<le> bitset_len ((hull_pass cp ^^ Suc m) S)
                  \<and> bitset_len ((hull_pass cp ^^ m) S) \<le> cp_n cp"
      using funpow_hull_pass_len_mono [where cp = cp and m = m and h = S] assms(1) by simp
  qed
  have "Suc k \<le> cp_n cp"
  proof (cases "bitset_len S \<le> 1")
    case True
    have "k = 0"
    proof (rule ccontr)
      assume "k \<noteq> 0"
      with grow have "bitset_len S < bitset_len (hull_pass cp S)" by auto
      with hull_pass_small [OF True, where cp = cp] show False by simp
    qed
    with assms(2) show ?thesis by simp
  next
    case False
    with bound assms(1) show ?thesis by simp
  qed
  with res fp grow mono show ?thesis by blast
qed

theorem bitset_convex_hull_loop_passes_bound_witness:
  "length [True, False, False, True] = cp_n path4
   \<and> 1 \<le> cp_n path4
   \<and> bitset_convex_hull_loop path4 [True, False, False, True]
        (bitset_len [True, False, False, True]) 0 = ([True, True, True, True], 2)
   \<and> (\<exists>k. bitset_convex_hull_loop path4 [True, False, False, True]
              (bitset_len [True, False, False, True]) 0
            = ((hull_pass path4 ^^ k) [True, False, False, True], Suc k)
          \<and> Suc k \<le> cp_n path4)"
proof -
  have len: "length [True, False, False, True] = cp_n path4" by (simp add: path4_def)
  have pos: "1 \<le> cp_n path4" by (simp add: path4_def)
  have val: "bitset_convex_hull_loop path4 [True, False, False, True]
        (bitset_len [True, False, False, True]) 0 = ([True, True, True, True], 2)"
    by code_simp
  from bitset_convex_hull_loop_passes_bound [OF len pos] len pos val
  show ?thesis by blast
qed

text \<open>
  C5: on an instance built from a graph with distinct vertices, computing the hull of the
  result of \<open>hull\<close> gives that result again; where \<open>hull\<close> raises, so does the
  composition, with the same error.
\<close>

theorem hull_idempotent:
  assumes "ConvexityProperties_init (Graph vs) d = Inr cp" and "distinct vs"
  shows "(case hull_vertices cp S of Inl e \<Rightarrow> Inl e | Inr H \<Rightarrow> hull_vertices cp H) = hull_vertices cp S"
proof (cases "hull_vertices cp S")
  case (Inl e)
  then show ?thesis by simp
next
  case (Inr H)
  with hull_vertices_again [OF assms Inr] show ?thesis by simp
qed

theorem hull_idempotent_witness:
  "ConvexityProperties_init (Graph path4_vertices) path4_distances = Inr path4
   \<and> distinct path4_vertices
   \<and> hull_vertices path4 [''a'', ''c''] = Inr [''a'', ''b'', ''c'']
   \<and> hull_vertices path4 [''a'', ''b'', ''c''] = Inr [''a'', ''b'', ''c'']"
proof -
  have d: "distinct path4_vertices" by (simp add: path4_vertices_def)
  have val: "hull_vertices path4 [''a'', ''c''] = Inr [''a'', ''b'', ''c'']" by code_simp
  from hull_idempotent [OF path4_init d, of "[''a'', ''c'']"] path4_init d val
  show ?thesis by simp
qed



text \<open>
  C7: when the closure of \<open>S\<close> is a proper subset of the vertices, the greedy expansion
  returns a bitset \<open>R\<close> above \<open>S\<close> whose closure is still a proper subset. On its way
  the loop has, when it reaches \<open>v\<close>, the bitset \<open>S\<close> with the vertices below \<open>v\<close> it has
  committed; and it commits a vertex \<open>v\<close> not in \<open>S\<close> exactly when the closure of that
  bitset with \<open>v\<close> added is a proper subset. \<open>greedy_increase\<close> is a function of the
  instance and \<open>S\<close>.
\<close>

theorem greedy_increase_proper:
  assumes "length S = cp_n cp"
    and "members (bitset_convex_hull cp S) \<subset> {..<cp_n cp}"
  shows "length (greedy_increase cp S) = cp_n cp
       \<and> members S \<subseteq> members (greedy_increase cp S)
       \<and> members (bitset_convex_hull cp (greedy_increase cp S)) \<subset> {..<cp_n cp}
       \<and> (\<forall>v < cp_n cp. members (greedy_working cp S v)
              = members S \<union> {u \<in> members (greedy_increase cp S). u < v})
       \<and> (\<forall>v < cp_n cp. \<not> bitset_in S v \<longrightarrow>
              (bitset_in (greedy_increase cp S) v \<longleftrightarrow>
               members (bitset_convex_hull cp (bitset_add (greedy_working cp S v) v))
                 \<subset> {..<cp_n cp}))"
proof -
  let ?n = "cp_n cp"
  let ?R = "greedy_increase cp S"
  let ?W = "greedy_working cp S"
  have len: "length ?R = ?n" using assms(1) by (simp add: greedy_increase_working)
  have sub: "members S \<subseteq> members ?R"
    using greedy_working_le [of S cp ?n] by (simp add: greedy_increase_working bitset_le_def)
  have "length (bitset_convex_hull cp S) = ?n" using assms(1) by simp
  from proper_iff_len [OF this] assms(2) have "bitset_len (bitset_convex_hull cp S) < ?n"
    by (rule iffD1)
  then have "bitset_len (bitset_convex_hull cp ?R) < ?n"
    unfolding greedy_increase_working by (rule greedy_working_proper)
  moreover have "length (bitset_convex_hull cp ?R) = ?n" using len by simp
  ultimately have proper: "members (bitset_convex_hull cp ?R) \<subset> {..<?n}"
    by (simp only: proper_iff_len)
  have later: "bitset_in ?R u \<longleftrightarrow> bitset_in (?W v) u" if "u < v" "v \<le> ?n" for u v
    unfolding greedy_increase_working using that by (rule greedy_working_later)
  have working: "members (?W v) = members S \<union> {u \<in> members ?R. u < v}" if "v < ?n" for v
  proof (intro set_eqI iffI)
    fix u assume u: "u \<in> members (?W v)"
    show "u \<in> members S \<union> {u \<in> members ?R. u < v}"
    proof (cases "u < v")
      case True
      with later [of u v] that u show ?thesis by (simp add: bitset_in_members)
    next
      case False
      with greedy_working_members [of cp S v] u show ?thesis by auto
    qed
  next
    fix u assume "u \<in> members S \<union> {u \<in> members ?R. u < v}"
    then show "u \<in> members (?W v)"
    proof
      assume "u \<in> members S"
      with greedy_working_le [of S cp v] show ?thesis by (auto simp: bitset_le_def)
    next
      assume "u \<in> {u \<in> members ?R. u < v}"
      with later [of u v] that show ?thesis by (simp add: bitset_in_members)
    qed
  qed
  have commit: "bitset_in ?R v \<longleftrightarrow>
      members (bitset_convex_hull cp (bitset_add (?W v) v)) \<subset> {..<?n}"
    if "v < ?n" "\<not> bitset_in S v" for v
  proof -
    have "bitset_in ?R v \<longleftrightarrow> bitset_in (?W (Suc v)) v"
      using that by (intro later) simp_all
    also have "\<dots> \<longleftrightarrow> bitset_len (bitset_convex_hull cp (bitset_add (?W v) v)) < ?n"
      unfolding greedy_working_Suc using that assms(1)
      by (intro greedy_step_commit) (simp_all add: greedy_working_before)
    also have "\<dots> \<longleftrightarrow> members (bitset_convex_hull cp (bitset_add (?W v) v)) \<subset> {..<?n}"
      using assms(1) by (intro proper_iff_len [symmetric]) simp
    finally show ?thesis .
  qed
  show ?thesis
  proof (intro conjI allI impI)
    show "length ?R = ?n" by (rule len)
    show "members S \<subseteq> members ?R" by (rule sub)
    show "members (bitset_convex_hull cp ?R) \<subset> {..<?n}" by (rule proper)
  next
    fix v assume "v < ?n"
    then show "members (?W v) = members S \<union> {u \<in> members ?R. u < v}" by (rule working)
  next
    fix v assume "v < ?n" "\<not> bitset_in S v"
    then show "bitset_in ?R v \<longleftrightarrow>
      members (bitset_convex_hull cp (bitset_add (?W v) v)) \<subset> {..<?n}" by (rule commit)
  qed
qed

theorem greedy_increase_proper_witness:
  "length [True, False, False, False] = cp_n path4
   \<and> bitset_convex_hull path4 [True, False, False, False] = [True, False, False, False]
   \<and> members [True, False, False, False] \<subset> {..<cp_n path4}
   \<and> greedy_increase path4 [True, False, False, False] = [True, True, True, False]
   \<and> members (bitset_convex_hull path4 [True, True, True, False]) \<subset> {..<cp_n path4}"
proof -
  have len: "length [True, False, False, False] = cp_n path4" by (simp add: path4_def)
  have val: "bitset_convex_hull path4 [True, False, False, False] = [True, False, False, False]"
    by code_simp
  have "bitset_len [True, False, False, False] < cp_n path4"
    by (simp add: bitset_len_def path4_def)
  with proper_iff_len [OF len] have pre: "members [True, False, False, False] \<subset> {..<cp_n path4}"
    by (rule iffD2)
  then have pre': "members (bitset_convex_hull path4 [True, False, False, False]) \<subset> {..<cp_n path4}"
    by (simp only: val)
  have res: "greedy_increase path4 [True, False, False, False] = [True, True, True, False]"
    by code_simp
  have "members (bitset_convex_hull path4 (greedy_increase path4 [True, False, False, False]))
          \<subset> {..<cp_n path4}"
    using greedy_increase_proper [OF len pre'] by (rule conjunct2 [THEN conjunct2, THEN conjunct1])
  then have "members (bitset_convex_hull path4 [True, True, True, False]) \<subset> {..<cp_n path4}"
    by (simp only: res)
  with len val pre res show ?thesis by (intro conjI)
qed

text \<open>
  C8: on an instance built from a graph with at most two vertices, \<open>hull_number\<close>
  returns the number of vertices when \<open>value_only\<close> is set and the list of all the
  vertices otherwise, whatever \<open>solve\<close> is: the backend is not reached.
\<close>

theorem hull_number_small:
  assumes "ConvexityProperties_init (Graph vs) d = Inr cp" and "length vs \<le> 2"
  shows "hull_number solve cp True = Some (Inr (Number (int (length vs))))
       \<and> hull_number solve cp False = Some (Inr (Generating_Set vs))"
proof -
  from assms(1) have "cp_n cp = length vs" "list_integers_to_vertices cp = vs"
    by (auto simp: ConvexityProperties_init_def)
  with assms(2) show ?thesis by (simp add: hull_number_def)
qed

theorem hull_number_small_witness:
  "ConvexityProperties_init (Graph edge2_vertices) edge2_distances = Inr edge2
   \<and> length edge2_vertices \<le> 2
   \<and> hull_number (\<lambda>p. None) edge2 True = Some (Inr (Number 2))
   \<and> hull_number (\<lambda>p. None) edge2 False = Some (Inr (Generating_Set [''a'', ''b'']))"
proof -
  have len: "length edge2_vertices \<le> 2" by (simp add: edge2_vertices_def)
  from hull_number_small [OF edge2_init len, of "\<lambda>p. None"] edge2_init len
  show ?thesis by (simp add: edge2_vertices_def)
qed

text \<open>
  C9: constructing the class on a directed graph always fails with the error
  \<open>NotImplementedError\<close>, whatever the vertices and the distances are; the result is an
  error, so no instance is produced.
\<close>

theorem init_digraph_rejected:
  "ConvexityProperties_init (DiGraph vs) c_distances = Inl NotImplementedError"
  by (simp add: ConvexityProperties_init_def)



end
